theory Spec2Isabelle
  imports Complex_Main "HOL-Library.Sublist" "HOL-Library.AList" "HOL-Library.Monad_Syntax"
begin

section \<open>Data model of \<open>SOT.text.map\<close>\<close>

text \<open>
  A map is an array of segments \<open>{range: {start, end}, origs: [...]}\<close>; every element of
  \<open>origs\<close> is \<open>{setname, range: {start, end, setindex}}\<close>. Offsets are JavaScript numbers;
  the model takes them as integers. The field \<open>end\<close> is written \<open>endp\<close> (\<open>end\<close> is a
  keyword), the two \<open>range\<close> fields are written \<open>seg_range\<close> and \<open>orig_range\<close>.
\<close>

record rng =
  start :: int
  endp :: int

record orng = rng +
  setindex :: nat

record orig =
  setname :: string
  orig_range :: orng

record seg =
  seg_range :: rng
  origs :: "orig list"

text \<open>The cursor \<open>p = {newmap, i, setindex}\<close> threaded through one insertion call.\<close>

record pstate =
  p_newmap :: "seg list"
  p_i :: nat
  p_setindex :: nat

text \<open>
  A regular expression is used only through \<open>text.matchAll(regex)\<close>: the model keeps whether
  it carries the \<open>g\<close> flag (without it \<open>matchAll\<close> throws a TypeError) and the list of
  \<open>(match.index, match[0].length)\<close> it yields on a text.
\<close>

datatype regex = RegExp (global: bool) (matchAll: "string \<Rightarrow> (nat \<times> nat) list")

section \<open>\<open>SOT.text.map\<close>: insertion\<close>

definition neworigs :: "string \<Rightarrow> int \<Rightarrow> int \<Rightarrow> nat \<Rightarrow> orig list" where
  "neworigs sn s e si = [\<lparr>setname = sn, orig_range = \<lparr>start = s, endp = e, setindex = si\<rparr>\<rparr>]"

definition mk :: "int \<Rightarrow> int \<Rightarrow> orig list \<Rightarrow> seg" where
  "mk s e os = \<lparr>seg_range = \<lparr>start = s, endp = e\<rparr>, origs = os\<rparr>"

definition push :: "seg \<Rightarrow> pstate \<Rightarrow> pstate" where
  "push x p = p\<lparr>p_newmap := p_newmap p @ [x]\<rparr>"

text \<open>\<open>_seg2(m, i, p)\<close>: pushes the left remainder (when not empty) and the intersection
  (always) on \<open>p.newmap\<close> and returns the right remainder.\<close>

definition seg2 :: "seg \<Rightarrow> seg \<Rightarrow> pstate \<Rightarrow> seg \<times> pstate" where
  "seg2 m i p =
    (let ms = start (seg_range m); me = endp (seg_range m);
         is = start (seg_range i); ie = endp (seg_range i);
         p1 = (if min ms is < max ms is
               then push (mk (min ms is) (max ms is) (if min ms is < is then origs m else origs i)) p
               else p);
         p2 = push (mk (max ms is) (min me ie) (origs i @ origs m)) p1
     in (mk (min me ie) (max me ie) (if min me ie < me then origs m else origs i), p2))"

text \<open>The \<open>for\<close> loop of \<open>_segment\<close> over \<open>map[p.i]\<close>.\<close>

function segment_loop :: "seg \<Rightarrow> seg list \<Rightarrow> pstate \<Rightarrow> seg \<times> pstate" where
  "segment_loop m mp p =
    (if p_i p < length mp \<and> start (seg_range (mp ! p_i p)) < endp (seg_range m)
     then (case seg2 m (mp ! p_i p) p of
             (m', p') \<Rightarrow> segment_loop m' mp (p'\<lparr>p_i := p_i p + 1\<rparr>))
     else (m, p))"
  by pat_completeness auto
termination
  by (relation "measure (\<lambda>(m, mp, p). length mp - p_i p)") auto

declare segment_loop.simps [simp del]

definition segment :: "int \<Rightarrow> int \<Rightarrow> orig list \<Rightarrow> seg list \<Rightarrow> pstate \<Rightarrow> pstate" where
  "segment s e os mp p =
    (let m = mk s e os;
         (m1, p1) =
           (if p_newmap p \<noteq> [] \<and> start (seg_range m) < endp (seg_range (last (p_newmap p)))
            then seg2 m (last (p_newmap p)) (p\<lparr>p_newmap := butlast (p_newmap p)\<rparr>)
            else (m, p));
         (m2, p2) = segment_loop m1 mp p1
     in if start (seg_range m2) < endp (seg_range m2) then push m2 p2 else p2)"

text \<open>\<open>_overwrite\<close>: the new range is pushed; the segments it covers are skipped.\<close>

function overwrite_loop :: "int \<Rightarrow> seg list \<Rightarrow> nat \<Rightarrow> nat" where
  "overwrite_loop e mp k =
    (if k < length mp \<and> endp (seg_range (mp ! k)) \<le> e then overwrite_loop e mp (k + 1) else k)"
  by pat_completeness auto
termination
  by (relation "measure (\<lambda>(e, mp, k). length mp - k)") auto

declare overwrite_loop.simps [simp del]

definition overwrite :: "int \<Rightarrow> int \<Rightarrow> orig list \<Rightarrow> seg list \<Rightarrow> pstate \<Rightarrow> pstate" where
  "overwrite s e os mp p =
    (let p1 = push (mk s e os) p;
         k = overwrite_loop e mp (p_i p1);
         k' = (if k < length mp \<and> start (seg_range (mp ! k)) < e then k + 1 else k)
     in p1\<lparr>p_i := k'\<rparr>)"

text \<open>The first loop of \<open>_insertrange\<close>: the segments that end at or before \<open>start\<close> are copied.\<close>

function copy_before :: "int \<Rightarrow> seg list \<Rightarrow> pstate \<Rightarrow> pstate" where
  "copy_before s mp p =
    (if p_i p < length mp \<and> endp (seg_range (mp ! p_i p)) \<le> s
     then copy_before s mp ((push (mp ! p_i p) p)\<lparr>p_i := p_i p + 1\<rparr>)
     else p)"
  by pat_completeness auto
termination
  by (relation "measure (\<lambda>(s, mp, p). length mp - p_i p)") (auto simp: push_def)

declare copy_before.simps [simp del]

definition insertrange :: "int \<Rightarrow> int \<Rightarrow> string \<Rightarrow> seg list \<Rightarrow> bool \<Rightarrow> pstate \<Rightarrow> pstate" where
  "insertrange s e sn mp sgm p =
    (let p1 = copy_before s mp p;
         os = neworigs sn s e (p_setindex p1)
     in if sgm then segment s e os mp p1 else overwrite s e os mp p1)"

definition addendranges :: "seg list \<Rightarrow> pstate \<Rightarrow> seg list" where
  "addendranges mp p = p_newmap p @ drop (p_i p) mp"

definition p0 :: pstate where
  "p0 = \<lparr>p_newmap = [], p_i = 0, p_setindex = 0\<rparr>"

text \<open>The loop of \<open>addmatches\<close> over the matches, each given as \<open>(index, length)\<close>.\<close>

fun addmatches_loop :: "(nat \<times> nat) list \<Rightarrow> string \<Rightarrow> seg list \<Rightarrow> bool \<Rightarrow> pstate \<Rightarrow> pstate" where
  "addmatches_loop [] sn mp sgm p = p"
| "addmatches_loop ((ix, len) # ms) sn mp sgm p =
    (let p1 = insertrange (int ix) (int ix + int len) sn mp sgm p
     in addmatches_loop ms sn mp sgm (p1\<lparr>p_setindex := p_setindex p1 + 1\<rparr>))"

definition addmatches :: "string \<Rightarrow> regex \<Rightarrow> string \<Rightarrow> bool \<Rightarrow> seg list \<Rightarrow> seg list" where
  "addmatches text re sn sgm mp =
    (if \<not> global re then mp
     else addendranges mp (addmatches_loop (matchAll re text) sn mp sgm p0))"

definition addrange :: "string \<Rightarrow> rng \<Rightarrow> string \<Rightarrow> bool \<Rightarrow> seg list \<Rightarrow> seg list" where
  "addrange text r sn sgm mp =
    (let r' = (if start r > endp r then \<lparr>start = endp r, endp = start r\<rparr> else r)
     in addendranges mp (insertrange (start r') (endp r') sn mp sgm p0))"


section \<open>\<open>SOT.PatternSeries\<close>: building the map of a pattern series\<close>

text \<open>
  A regex-valued attribute is used only through \<open>SOT.text.extract(s, regex)\<close>, which
  yields the first match or \<open>null\<close>; a string-valued one is a template with the
  wildcard \<open>$_&\<close>; any other value is ignored by \<open>_addattrs\<close>.
\<close>

datatype attrspec = AttrRegExp "string \<Rightarrow> string option" | AttrString string | AttrOther

text \<open>
  One entry of \<open>defs\<close>, after \<open>add\<close> has resolved regex strings. The object \<open>defs\<close> is an
  association list in the order the classes were registered (the enumeration order of
  \<open>for (cls in defs)\<close> for class names that are not array indices).
\<close>

record def =
  d_regex :: "regex option"
  d_range :: "rng option"
  htmltag :: "string option"
  htmltagend :: "string option"
  htmlattrs :: "(string \<times> attrspec) list option"

fun buildmatchesmap :: "(string \<times> def) list \<Rightarrow> string \<Rightarrow> seg list \<Rightarrow> seg list" where
  "buildmatchesmap [] text mp = mp"
| "buildmatchesmap ((cls, d) # defs) text mp =
    buildmatchesmap defs text
      (case d_regex d of Some re \<Rightarrow> addmatches text re cls True mp | None \<Rightarrow> mp)"

fun buildrangesmap :: "(string \<times> def) list \<Rightarrow> string \<Rightarrow> seg list \<Rightarrow> seg list" where
  "buildrangesmap [] text mp = mp"
| "buildrangesmap ((cls, d) # defs) text mp =
    buildrangesmap defs text
      (case d_range d of Some r \<Rightarrow> addrange text r cls True mp | None \<Rightarrow> mp)"

fun buildinorder :: "(string \<times> def) list \<Rightarrow> string \<Rightarrow> seg list \<Rightarrow> seg list" where
  "buildinorder [] text mp = mp"
| "buildinorder ((cls, d) # defs) text mp =
    buildinorder defs text
      (case d_regex d of
         Some re \<Rightarrow> addmatches text re cls True mp
       | None \<Rightarrow> (case d_range d of Some r \<Rightarrow> addrange text r cls True mp | None \<Rightarrow> mp))"

definition buildmap :: "(string \<times> def) list \<Rightarrow> string \<Rightarrow> seg list \<Rightarrow> bool \<Rightarrow> seg list" where
  "buildmap defs text mp overlayranges =
    (if overlayranges then buildrangesmap defs text (buildmatchesmap defs text mp)
     else buildinorder defs text mp)"

section \<open>\<open>SOT.text.map.range\<close>: queries by offset\<close>

definition isposin :: "int \<Rightarrow> seg list \<Rightarrow> int \<Rightarrow> bool" where
  "isposin pos mp i =
    (i \<ge> 0 \<and> i < int (length mp) \<and> pos \<ge> start (seg_range (mp ! nat i))
     \<and> pos \<le> endp (seg_range (mp ! nat i)))"

text \<open>
  \<open>Math.round\<close> rounds to the nearest integer, halves upwards. The search of \<open>next\<close>
  halves \<open>j = map.length / 2\<close> until it rounds to zero, so \<open>i\<close> and \<open>j\<close> are dyadic
  fractions, which double precision holds exactly for any map that fits in memory; the
  model takes them as rationals. Reading \<open>map[k].range\<close> outside the array throws a
  TypeError, which is \<open>None\<close>.
\<close>

definition jsround :: "rat \<Rightarrow> int" where
  "jsround x = \<lfloor>x + 1 / 2\<rfloor>"

function binsearch :: "int \<Rightarrow> seg list \<Rightarrow> rat \<Rightarrow> rat \<Rightarrow> rat option" where
  "binsearch pos mp i j =
    (if jsround j \<noteq> 0
     then (if 0 \<le> jsround i \<and> jsround i < int (length mp)
           then (if endp (seg_range (mp ! nat (jsround i))) \<le> pos
                 then binsearch pos mp (i + j / 2) (j / 2)
                 else binsearch pos mp (i - j / 2) (j / 2))
           else None)
     else Some i)"
  by pat_completeness auto
termination
proof (relation "measure (\<lambda>(pos, mp, i, j). nat \<lfloor>4 * \<bar>j\<bar>\<rfloor>)")
  show "wf (measure (\<lambda>(pos, mp, i, j). nat \<lfloor>4 * \<bar>j\<bar>\<rfloor>))" by simp
next
  fix pos :: int and mp :: "seg list" and i j :: rat
  assume "jsround j \<noteq> 0"
  then have "1 / 2 \<le> \<bar>j\<bar>" unfolding jsround_def by (cases "j \<ge> 0") linarith+
  then have "\<lfloor>4 * \<bar>j / 2\<bar>\<rfloor> + 1 \<le> \<lfloor>4 * \<bar>j\<bar>\<rfloor>" "0 \<le> \<lfloor>4 * \<bar>j / 2\<bar>\<rfloor>" by linarith+
  then have lt: "nat \<lfloor>4 * \<bar>j / 2\<bar>\<rfloor> < nat \<lfloor>4 * \<bar>j\<bar>\<rfloor>" by linarith
  show "((pos, mp, i + j / 2, j / 2), (pos, mp, i, j)) \<in> measure (\<lambda>(pos, mp, i, j). nat \<lfloor>4 * \<bar>j\<bar>\<rfloor>)"
    using lt by simp
  show "((pos, mp, i - j / 2, j / 2), (pos, mp, i, j)) \<in> measure (\<lambda>(pos, mp, i, j). nat \<lfloor>4 * \<bar>j\<bar>\<rfloor>)"
    using lt by simp
qed

declare binsearch.simps [simp del]

text \<open>The closing linear scan of \<open>next\<close>.\<close>

function next_loop :: "int \<Rightarrow> seg list \<Rightarrow> nat \<Rightarrow> nat" where
  "next_loop pos mp i =
    (if i < length mp \<and> endp (seg_range (mp ! i)) \<le> pos then next_loop pos mp (i + 1) else i)"
  by pat_completeness auto
termination
  by (relation "measure (\<lambda>(pos, mp, i). length mp - i)") auto

declare next_loop.simps [simp del]

definition "next" :: "int \<Rightarrow> seg list \<Rightarrow> int option" where
  "next pos mp =
    (if mp = [] then Some (- 1)
     else if endp (seg_range (mp ! 0)) > pos then Some (int (next_loop pos mp 0))
     else if pos < start (seg_range (mp ! (length mp - 1)))
     then (case binsearch pos mp (rat_of_nat (length mp) / 2) (rat_of_nat (length mp) / 2) of
             None \<Rightarrow> None
           | Some r \<Rightarrow> if jsround r < 0 then None
                      else Some (int (next_loop pos mp (nat (jsround r)))))
     else Some (int (next_loop pos mp (length mp - 1))))"

definition atpos :: "int \<Rightarrow> seg list \<Rightarrow> int option" where
  "atpos pos mp =
    (case next pos mp of
       None \<Rightarrow> None
     | Some i \<Rightarrow> Some (if \<not> isposin pos mp i then - 1 else i))"


section \<open>String primitives of the host language\<close>

text \<open>
  \<open>s.slice(b, e)\<close>, \<open>s.slice(b)\<close> and \<open>s.substring(b, e)\<close> on integer arguments: \<open>slice\<close>
  counts a negative index from the end, \<open>substring\<close> clamps to the string and swaps its
  arguments when they are out of order.
\<close>

definition js_slice_index :: "string \<Rightarrow> int \<Rightarrow> nat" where
  "js_slice_index s b =
    (let len = int (length s) in nat (if b < 0 then max (len + b) 0 else min b len))"

definition js_slice :: "string \<Rightarrow> int \<Rightarrow> int \<Rightarrow> string" where
  "js_slice s b e = take (js_slice_index s e - js_slice_index s b) (drop (js_slice_index s b) s)"

definition js_slice_from :: "string \<Rightarrow> int \<Rightarrow> string" where
  "js_slice_from s b = drop (js_slice_index s b) s"

definition js_substring :: "string \<Rightarrow> int \<Rightarrow> int \<Rightarrow> string" where
  "js_substring s b e =
    (let len = int (length s);
         b' = min (max b 0) len;
         e' = min (max e 0) len
     in take (nat (max b' e' - min b' e')) (drop (nat (min b' e')) s))"

text \<open>
  \<open>s.replace(pat, repl)\<close> with a string pattern replaces the first occurrence of \<open>pat\<close>
  by the expansion of the template \<open>repl\<close>: \<open>$$\<close> is a dollar sign, \<open>$&\<close> the matched
  text, \<open>$`\<close> and \<open>$'\<close> the text before and after the match; with a string pattern there
  are no groups, so any other \<open>$\<close> stands for itself.
\<close>

fun find_sub :: "string \<Rightarrow> string \<Rightarrow> nat option" where
  "find_sub pat [] = (if pat = [] then Some 0 else None)"
| "find_sub pat (c # cs) =
    (if prefix pat (c # cs) then Some 0 else map_option Suc (find_sub pat cs))"

fun expand :: "string \<Rightarrow> string \<Rightarrow> string \<Rightarrow> string \<Rightarrow> string" where
  "expand m pre post [] = []"
| "expand m pre post [c] = [c]"
| "expand m pre post (c # d # ds) =
    (if c = CHR ''$'' \<and> d = CHR ''$'' then CHR ''$'' # expand m pre post ds
     else if c = CHR ''$'' \<and> d = CHR ''&'' then m @ expand m pre post ds
     else if c = CHR ''$'' \<and> d = CHR 0x60 then pre @ expand m pre post ds
     else if c = CHR ''$'' \<and> d = CHR 0x27 then post @ expand m pre post ds
     else c # expand m pre post (d # ds))"

definition js_replace :: "string \<Rightarrow> string \<Rightarrow> string \<Rightarrow> string" where
  "js_replace s pat repl =
    (case find_sub pat s of
       None \<Rightarrow> s
     | Some k \<Rightarrow> take k s @ expand pat (take k s) (drop (k + length pat) s) repl
                 @ drop (k + length pat) s)"

text \<open>\<open>s.replace(/c/g, r)\<close> for a one-character pattern and a replacement without \<open>$\<close>.\<close>

definition replace_char :: "char \<Rightarrow> string \<Rightarrow> string \<Rightarrow> string" where
  "replace_char c r s = concat (map (\<lambda>x. if x = c then r else [x]) s)"

section \<open>\<open>SOT.text\<close>: helpers\<close>

definition raw2HTML :: "string \<Rightarrow> string" where
  "raw2HTML text =
    replace_char (CHR ''<'') ''&lt;''
      (replace_char (CHR ''>'') ''&gt;'' (replace_char (CHR ''&'') ''&amp;'' text))"

text \<open>\<open>extractto(tag, /^[A-Za-z0-9-_]+/)\<close>: the leading run of name characters; with no
  such run \<open>match\<close> yields \<open>null\<close> and \<open>s[0]\<close> throws.\<close>

definition is_tagchar :: "char \<Rightarrow> bool" where
  "is_tagchar c =
    (c \<in> set ''ABCDEFGHIJKLMNOPQRSTUVWXYZabcdefghijklmnopqrstuvwxyz0123456789-_'')"

definition extractto_name :: "string \<Rightarrow> string option" where
  "extractto_name s = (if takeWhile is_tagchar s = [] then None else Some (takeWhile is_tagchar s))"

section \<open>\<open>SOT.text.map\<close>: replace operations\<close>

text \<open>\<open>replacewiths\<close> is an object from set names to strings; a missing name reads as
  \<open>undefined\<close>, which \<open>replace\<close> turns into the string \<open>undefined\<close>.\<close>

fun replaceall_loop ::
  "string \<Rightarrow> seg list \<Rightarrow> (string \<rightharpoonup> string) \<Rightarrow> string \<Rightarrow> int \<Rightarrow> string \<times> int" where
  "replaceall_loop text [] rw newtext n = (newtext, n)"
| "replaceall_loop text (s # mp) rw newtext n =
    (let newtext1 = newtext @ js_slice text n (start (seg_range s));
         token = js_substring text (start (seg_range s)) (endp (seg_range s));
         newtext2 =
           (if length (origs s) = 1
               \<and> start (orig_range (origs s ! 0)) = start (seg_range s)
               \<and> endp (orig_range (origs s ! 0)) = endp (seg_range s)
            then newtext1 @ js_replace token token
                   (case rw (setname (origs s ! 0)) of Some r \<Rightarrow> r | None \<Rightarrow> ''undefined'')
            else newtext1 @ token)
     in replaceall_loop text mp rw newtext2 (endp (seg_range s)))"

definition replaceall :: "string \<Rightarrow> seg list \<Rightarrow> (string \<rightharpoonup> string) \<Rightarrow> string" where
  "replaceall text mp rw =
    (if mp = [] then text
     else (case replaceall_loop text mp rw [] 0 of
             (newtext, n) \<Rightarrow> newtext @ js_slice_from text n))"

text \<open>\<open>replace\<close>: \<open>map[i].origs[0].setname\<close> throws a TypeError (\<open>None\<close>) when the segment
  has no origin. The index is an array index, a natural number.\<close>

definition replace :: "string \<Rightarrow> seg list \<Rightarrow> nat \<Rightarrow> string \<Rightarrow> string option" where
  "replace text mp i newtext =
    (if i \<ge> length mp then Some text
     else (case origs (mp ! i) of
             [] \<Rightarrow> None
           | og # _ \<Rightarrow> Some (replaceall text [mp ! i] [setname og \<mapsto> newtext])))"


section \<open>\<open>SOT.map.markup\<close>: layered markup of a map\<close>

record opts =
  opt_htmltag :: "string option"

text \<open>The parameters a callback reads (\<open>map\<close> and \<open>opts\<close> are those of the call), and the
  attribute object \<open>attrs\<close> as the list of its properties in insertion order; a value is
  a string or \<open>null\<close>.\<close>

type_synonym attrs = "(string \<times> string option) list"

record cbparams =
  cb_attrs :: attrs
  cb_class :: string
  cb_mapindex :: nat
  cb_layerindex :: nat

text \<open>\<open>starts[setname] = {pos, pieceindex, ...}\<close>.\<close>

type_synonym starts = "string \<rightharpoonup> nat \<times> nat"

definition tag :: "opts option \<Rightarrow> (string \<times> def) list option \<Rightarrow> orig \<Rightarrow> bool \<Rightarrow> string option" where
  "tag op defs layer endtag =
    (let t0 = (case op of
                 Some ov \<Rightarrow> (case opt_htmltag ov of Some h \<Rightarrow> if h \<noteq> [] then h else ''mark''
                            | None \<Rightarrow> ''mark'')
               | None \<Rightarrow> ''mark'')
     in case defs of
          None \<Rightarrow> Some t0
        | Some ds \<Rightarrow>
            (case map_of ds (setname layer) of
               None \<Rightarrow> None
             | Some d \<Rightarrow>
                 (case (if endtag then htmltagend d else None) of
                    Some te \<Rightarrow> Some te
                  | None \<Rightarrow> (case htmltag d of
                               Some h \<Rightarrow> if h \<noteq> [] then Some h else Some t0
                             | None \<Rightarrow> Some t0))))"

fun addattrs :: "string \<Rightarrow> attrs \<Rightarrow> (string \<times> attrspec) list \<Rightarrow> orng \<Rightarrow> attrs" where
  "addattrs fulltext ats [] r = ats"
| "addattrs fulltext ats ((a, sp) # rest) r =
    addattrs fulltext
      (case sp of
         AttrRegExp f \<Rightarrow> AList.update a (f (js_slice fulltext (start r) (endp r))) ats
       | AttrString t \<Rightarrow>
           AList.update a (Some (js_replace t ''$_&'' (js_slice fulltext (start r) (endp r)))) ats
       | AttrOther \<Rightarrow> ats)
      rest r"

definition istagdif :: "seg \<Rightarrow> seg option \<Rightarrow> nat \<Rightarrow> bool" where
  "istagdif sg compareseg layerindex =
    (case compareseg of
       None \<Rightarrow> True
     | Some c \<Rightarrow>
         layerindex \<ge> length (origs c)
         \<or> setname (origs sg ! layerindex) \<noteq> setname (origs c ! layerindex)
         \<or> setindex (orig_range (origs sg ! layerindex))
             \<noteq> setindex (orig_range (origs c ! layerindex)))"

function difdepth_loop :: "seg \<Rightarrow> seg option \<Rightarrow> nat \<Rightarrow> nat" where
  "difdepth_loop sg compareseg depth =
    (if depth < length (origs sg)
     then (if istagdif sg compareseg depth then depth
           else difdepth_loop sg compareseg (depth + 1))
     else depth)"
  by pat_completeness auto
termination
  by (relation "measure (\<lambda>(sg, c, depth). length (origs sg) - depth)") auto

declare difdepth_loop.simps [simp del]

definition difdepth :: "seg \<Rightarrow> seg option \<Rightarrow> nat" where
  "difdepth sg compareseg = difdepth_loop sg compareseg 0"

text \<open>The loop of \<open>_tagstart\<close> over the attributes: \<open>t\<close> is the tag text so far.\<close>

fun attrs_loop :: "string \<Rightarrow> nat \<Rightarrow> nat \<Rightarrow> attrs \<Rightarrow> string \<Rightarrow> starts \<Rightarrow> string \<times> starts" where
  "attrs_loop sn pieceindex offset [] t st = (t, st)"
| "attrs_loop sn pieceindex offset ((a, v) # rest) t st =
    (let val = (case v of Some x \<Rightarrow> x | None \<Rightarrow> []);
         t1 = t @ '' '' @ a @ (if val \<noteq> [] then [CHR ''='', CHR 0x22] @ val else []);
         t2 = (if a = ''class'' then t1 @ ''  '' else t1);
         st2 = (if a = ''class'' then st(sn \<mapsto> (offset + length t2 - 1, pieceindex)) else st);
         t3 = t2 @ (if val \<noteq> [] then [CHR 0x22] else [])
     in attrs_loop sn pieceindex offset rest t3 st2)"

definition tagstart ::
  "string \<Rightarrow> opts option \<Rightarrow> (string \<times> def) list option \<Rightarrow> (cbparams \<Rightarrow> attrs) option \<Rightarrow>
   rng \<Rightarrow> orig \<Rightarrow> nat \<Rightarrow> nat \<Rightarrow> nat \<Rightarrow> nat \<Rightarrow> starts \<Rightarrow> (string \<times> starts) option" where
  "tagstart fulltext op defs callback sr layer mapindex j pieceindex offset st =
    do {
      tg \<leftarrow> tag op defs layer False;
      let at0 = [(''class'',
                  Some (setname layer
                        @ (if start (orig_range layer) = start sr then '' L'' else [])))];
      at1 \<leftarrow> (case defs of
                None \<Rightarrow> Some at0
              | Some ds \<Rightarrow>
                  (case map_of ds (setname layer) of
                     None \<Rightarrow> None
                   | Some d \<Rightarrow>
                       (case htmlattrs d of
                          Some ha \<Rightarrow> Some (addattrs fulltext at0 ha (orig_range layer))
                        | None \<Rightarrow> Some at0)));
      let at2 = (case callback of
                   Some cb \<Rightarrow> cb \<lparr>cb_attrs = at1, cb_class = setname layer,
                                  cb_mapindex = mapindex, cb_layerindex = j\<rparr>
                 | None \<Rightarrow> at1);
      let (t, st') = attrs_loop (setname layer) pieceindex offset at2 (''<'' @ tg) st;
      Some (t @ ''>'', st')
    }"

text \<open>The loop of \<open>_layersstart\<close>: \<open>ls\<close> are the layers \<open>seg.origs[j..]\<close> still to open.\<close>

fun layersstart_loop ::
  "string \<Rightarrow> opts option \<Rightarrow> (string \<times> def) list option \<Rightarrow> (cbparams \<Rightarrow> attrs) option \<Rightarrow>
   rng \<Rightarrow> nat \<Rightarrow> nat \<Rightarrow> orig list \<Rightarrow> nat \<Rightarrow> string \<Rightarrow> starts \<Rightarrow> (string \<times> starts) option" where
  "layersstart_loop fulltext op defs callback sr mapindex pieceindex [] j tags st = Some (tags, st)"
| "layersstart_loop fulltext op defs callback sr mapindex pieceindex (layer # ls) j tags st =
    do {
      (t, st') \<leftarrow> tagstart fulltext op defs callback sr layer mapindex j pieceindex (length tags) st;
      layersstart_loop fulltext op defs callback sr mapindex pieceindex ls (j + 1) (tags @ t) st'
    }"

definition layersstart ::
  "string \<Rightarrow> opts option \<Rightarrow> (string \<times> def) list option \<Rightarrow> (cbparams \<Rightarrow> attrs) option \<Rightarrow>
   seg option \<Rightarrow> seg \<Rightarrow> nat \<Rightarrow> nat \<Rightarrow> starts \<Rightarrow> (string \<times> starts) option" where
  "layersstart fulltext op defs callback prevseg sg mapindex pieceindex st =
    (let j = difdepth sg prevseg
     in layersstart_loop fulltext op defs callback (seg_range sg) mapindex pieceindex
          (drop j (origs sg)) j [] st)"

definition tagend :: "opts option \<Rightarrow> (string \<times> def) list option \<Rightarrow> orig \<Rightarrow> string option" where
  "tagend op defs layer =
    do {
      tg \<leftarrow> tag op defs layer True;
      if tg = [] then Some []
      else do { nm \<leftarrow> extractto_name tg; Some (''</'' @ nm @ ''>'') }
    }"

text \<open>The loop of \<open>_layersend\<close>: \<open>ls\<close> are the layers \<open>seg.origs[j..]\<close>, deepest first.\<close>

fun layersend_loop :: "opts option \<Rightarrow> (string \<times> def) list option \<Rightarrow> orig list \<Rightarrow> string \<Rightarrow> string option" where
  "layersend_loop op defs [] t = Some t"
| "layersend_loop op defs (layer # ls) t =
    do { te \<leftarrow> tagend op defs layer; layersend_loop op defs ls (t @ te) }"

definition layersend ::
  "opts option \<Rightarrow> (string \<times> def) list option \<Rightarrow> seg \<Rightarrow> seg option \<Rightarrow> string option" where
  "layersend op defs sg nextseg =
    layersend_loop op defs (rev (drop (difdepth sg nextseg) (origs sg))) []"

text \<open>\<open>_setlayerright\<close>: the class list recorded for a layer that ends with the segment
  gets its \<open>R\<close>, in the piece of \<open>html\<close> that holds its tag.\<close>

fun setlayerright_loop ::
  "rng \<Rightarrow> orig list \<Rightarrow> string list \<Rightarrow> starts \<Rightarrow> (string list \<times> starts) option" where
  "setlayerright_loop sr [] html st = Some (html, st)"
| "setlayerright_loop sr (layer # ls) html st =
    (case st (setname layer) of
       Some (pos, pieceindex) \<Rightarrow>
         (if endp (orig_range layer) = endp sr
          then (if pieceindex < length html
                then setlayerright_loop sr ls
                       (html[pieceindex :=
                          js_slice (html ! pieceindex) 0 (int pos) @ ''R''
                          @ js_slice_from (html ! pieceindex) (int pos + 1)])
                       (st(setname layer := None))
                else None)
          else setlayerright_loop sr ls html st)
     | None \<Rightarrow> setlayerright_loop sr ls html st)"

definition htmladd :: "string \<Rightarrow> string list \<Rightarrow> string list" where
  "htmladd piece html = (if piece \<noteq> [] then html @ [piece] else html)"

record mstate =
  m_html :: "string list"
  m_text :: string
  m_starts :: starts
  m_n :: int
  m_prevseg :: "seg option"

definition markup_step ::
  "string \<Rightarrow> seg list \<Rightarrow> opts option \<Rightarrow> (string \<times> def) list option \<Rightarrow> (cbparams \<Rightarrow> attrs) option \<Rightarrow>
   nat \<Rightarrow> mstate \<Rightarrow> mstate option" where
  "markup_step fulltext mp op defs callback i s =
    (let sg = mp ! i;
         html1 = htmladd (raw2HTML (js_slice fulltext (m_n s) (start (seg_range sg)))) (m_html s);
         nextseg = (if i < length mp - 1 then Some (mp ! (i + 1)) else None);
         insidetext = raw2HTML (js_slice fulltext (start (seg_range sg)) (endp (seg_range sg)))
     in do {
       (tags, st1) \<leftarrow> layersstart fulltext op defs callback (m_prevseg s) sg i
                        (if m_text s \<noteq> [] then length html1 + 1 else length html1) (m_starts s);
       let (html2, text2) =
             (if tags \<noteq> [] then (htmladd insidetext (htmladd tags (htmladd (m_text s) html1)), [])
              else (html1, m_text s @ insidetext));
       endtags \<leftarrow> layersend op defs sg nextseg;
       (html3, text3, st3) \<leftarrow>
         (if endtags \<noteq> []
          then (let html2' = (if text2 \<noteq> [] then htmladd (text2 @ endtags) html2
                              else htmladd endtags html2)
                in do {
                  (h, st) \<leftarrow> setlayerright_loop (seg_range sg) (origs sg) html2' st1;
                  Some (h, [], st)
                })
          else Some (html2, text2, st1));
       Some \<lparr>m_html = html3, m_text = text3, m_starts = st3,
             m_n = endp (seg_range sg), m_prevseg = Some sg\<rparr>
     })"

function markup_loop ::
  "string \<Rightarrow> seg list \<Rightarrow> opts option \<Rightarrow> (string \<times> def) list option \<Rightarrow> (cbparams \<Rightarrow> attrs) option \<Rightarrow>
   nat \<Rightarrow> mstate \<Rightarrow> mstate option" where
  "markup_loop fulltext mp op defs callback i s =
    (if i < length mp
     then (case markup_step fulltext mp op defs callback i s of
             None \<Rightarrow> None
           | Some s' \<Rightarrow> markup_loop fulltext mp op defs callback (i + 1) s')
     else Some s)"
  by pat_completeness auto
termination
  by (relation "measure (\<lambda>(fulltext, mp, op, defs, callback, i, s). length mp - i)") auto

declare markup_loop.simps [simp del]

definition markup ::
  "string \<Rightarrow> seg list \<Rightarrow> opts option \<Rightarrow> (string \<times> def) list option \<Rightarrow> (cbparams \<Rightarrow> attrs) option \<Rightarrow>
   string option" where
  "markup fulltext mp op defs callback =
    do {
      s \<leftarrow> markup_loop fulltext mp op defs callback 0
             \<lparr>m_html = [], m_text = [], m_starts = Map.empty, m_n = 0, m_prevseg = None\<rparr>;
      Some (concat (m_html s) @ raw2HTML (js_slice_from fulltext (m_n s)))
    }"

text \<open>\<open>PatternSeries.markup(text)\<close> with \<open>map = []\<close>; \<open>overlayranges\<close> is
  \<open>opts.overlayranges\<close>.\<close>

definition series_markup ::
  "(string \<times> def) list \<Rightarrow> string \<Rightarrow> opts option \<Rightarrow> bool \<Rightarrow> (cbparams \<Rightarrow> attrs) option \<Rightarrow>
   string option" where
  "series_markup defs text op overlayranges callback =
    markup text (buildmap defs text [] overlayranges) op (Some defs) callback"

section \<open>Notions used to state the properties\<close>




text \<open>The map invariant: every segment is a non-empty half-open range, and every segment
  ends at or before the start of every later one; so the ranges are strictly ascending
  and pairwise disjoint.\<close>

definition ascending :: "seg list \<Rightarrow> bool" where
  "ascending mp =
    ((\<forall>s \<in> set mp. start (seg_range s) < endp (seg_range s))
     \<and> sorted_wrt (\<lambda>a b. endp (seg_range a) \<le> start (seg_range b)) mp)"

text \<open>The offsets a map covers.\<close>

definition covered :: "seg list \<Rightarrow> int set" where
  "covered mp = (\<Union>s \<in> set mp. {start (seg_range s) ..< endp (seg_range s)})"

text \<open>The three segments of the overlap example \<open>A = [0,10)\<close>, \<open>B = [3,6)\<close>.\<close>

definition segA1 :: seg where
  "segA1 = mk 0 3 (neworigs ''A'' 0 10 0)"

definition segAB :: seg where
  "segAB = mk 3 6 (neworigs ''A'' 0 10 0 @ neworigs ''B'' 3 6 0)"

definition segA2 :: seg where
  "segA2 = mk 6 10 (neworigs ''A'' 0 10 0)"

text \<open>An offset lies in a segment when the segment's half-open range contains it.\<close>

definition inseg :: "int \<Rightarrow> seg \<Rightarrow> bool" where
  "inseg pos s = (start (seg_range s) \<le> pos \<and> pos < endp (seg_range s))"

text \<open>\<open>a\<close> is the index \<open>next\<close> looks for: the segments before \<open>a\<close>, and no others, end
  at or before \<open>pos\<close>.\<close>

definition boundary :: "int \<Rightarrow> seg list \<Rightarrow> nat \<Rightarrow> bool" where
  "boundary pos mp a =
    (a \<le> length mp \<and> (\<forall>k < length mp. endp (seg_range (mp ! k)) \<le> pos \<longleftrightarrow> k < a))"




text \<open>
  Notions for the proofs about insertion. A map is weakly ascending when every segment
  ends at or before the start of every later one and no range is reversed; segments of
  length zero are allowed. The three pieces of \<open>_seg2\<close>, and the loop of \<open>_segment\<close>
  seen on the list of the segments still to come: the segments it pushes, the last
  fragment and the segments it leaves.
\<close>

abbreviation sstart :: "seg \<Rightarrow> int" where "sstart s \<equiv> start (seg_range s)"
abbreviation send :: "seg \<Rightarrow> int" where "send s \<equiv> endp (seg_range s)"

definition wasc :: "seg list \<Rightarrow> bool" where
  "wasc mp = ((\<forall>s \<in> set mp. sstart s \<le> send s) \<and> sorted_wrt (\<lambda>a b. send a \<le> sstart b) mp)"

definition seg2_left :: "seg \<Rightarrow> seg \<Rightarrow> seg list" where
  "seg2_left m i =
    (if min (sstart m) (sstart i) < max (sstart m) (sstart i)
     then [mk (min (sstart m) (sstart i)) (max (sstart m) (sstart i))
             (if min (sstart m) (sstart i) < sstart i then origs m else origs i)]
     else [])"

definition seg2_mid :: "seg \<Rightarrow> seg \<Rightarrow> seg" where
  "seg2_mid m i = mk (max (sstart m) (sstart i)) (min (send m) (send i)) (origs i @ origs m)"

definition seg2_right :: "seg \<Rightarrow> seg \<Rightarrow> seg" where
  "seg2_right m i =
    mk (min (send m) (send i)) (max (send m) (send i))
       (if min (send m) (send i) < send m then origs m else origs i)"

fun merge_list :: "seg \<Rightarrow> seg list \<Rightarrow> seg list \<times> seg \<times> seg list" where
  "merge_list m [] = ([], m, [])"
| "merge_list m (i # rest) =
    (if sstart i < send m
     then (case merge_list (seg2_right m i) rest of
             (pushed, m', rest') \<Rightarrow> (seg2_left m i @ [seg2_mid m i] @ pushed, m', rest'))
     else ([], m, i # rest))"


text \<open>
  One insertion of \<open>_insertrange\<close> in Segment mode, seen on the new map \<open>nm\<close> and the
  list \<open>rest\<close> of the segments not yet visited: the segments that end at or before \<open>s\<close>
  are copied; when the last segment of the new map still reaches beyond \<open>s\<close> (the
  iceberg of the source's comment) it is taken back and split first; the loop runs over
  the remaining segments; the last fragment is pushed when it is not empty.
\<close>

definition iceberg :: "int \<Rightarrow> seg list \<Rightarrow> bool" where
  "iceberg s nm = (nm \<noteq> [] \<and> s < send (last nm))"

definition insert_list ::
  "int \<Rightarrow> int \<Rightarrow> orig list \<Rightarrow> seg list \<Rightarrow> seg list \<Rightarrow> seg list \<times> seg list" where
  "insert_list s e nw nm rest =
    (let nm1 = nm @ takeWhile (\<lambda>x. send x \<le> s) rest;
         rest1 = dropWhile (\<lambda>x. send x \<le> s) rest;
         m = mk s e nw;
         nm2 = (if iceberg s nm1
                then butlast nm1 @ seg2_left m (last nm1) @ [seg2_mid m (last nm1)] else nm1);
         m1 = (if iceberg s nm1 then seg2_right m (last nm1) else m)
     in case merge_list m1 rest1 of
          (pushed, m2, rest2) \<Rightarrow>
            (nm2 @ pushed @ (if sstart m2 < send m2 then [m2] else []), rest2))"

definition copied :: "int \<Rightarrow> seg list \<Rightarrow> seg list" where
  "copied s rest = takeWhile (\<lambda>x. send x \<le> s) rest"

definition remaining :: "int \<Rightarrow> seg list \<Rightarrow> seg list" where
  "remaining s rest = dropWhile (\<lambda>x. send x \<le> s) rest"

text \<open>The state between two insertions of one call: the new map followed by the
  segments not yet visited is weakly ascending, and the new map starts at or before
  \<open>lo\<close>, the end of the last range inserted.\<close>

definition between :: "int \<Rightarrow> seg list \<Rightarrow> seg list \<Rightarrow> bool" where
  "between lo nm rest = (wasc (nm @ rest) \<and> (\<forall>x \<in> set nm. sstart x \<le> lo))"

text \<open>The new map before the loop of an insertion runs, and the fragment the loop
  starts with.\<close>

definition ins_pre :: "int \<Rightarrow> int \<Rightarrow> orig list \<Rightarrow> seg list \<Rightarrow> seg list \<Rightarrow> seg list" where
  "ins_pre s e nw nm rest =
    (if iceberg s (nm @ copied s rest)
     then butlast (nm @ copied s rest) @ seg2_left (mk s e nw) (last (nm @ copied s rest))
          @ [seg2_mid (mk s e nw) (last (nm @ copied s rest))]
     else nm @ copied s rest)"

definition ins_m1 :: "int \<Rightarrow> int \<Rightarrow> orig list \<Rightarrow> seg list \<Rightarrow> seg list \<Rightarrow> seg" where
  "ins_m1 s e nw nm rest =
    (if iceberg s (nm @ copied s rest)
     then seg2_right (mk s e nw) (last (nm @ copied s rest)) else mk s e nw)"

text \<open>
  The matches of one call are ordered and do not overlap when each starts at or after
  the end of the one before (\<open>ordered_from\<close>); \<open>matched\<close> is the set of offsets they
  cover. \<open>cursor\<close> is the invariant of the cursor \<open>p\<close> between two matches, \<open>layered\<close>
  the one of the origin lists: the segments not yet visited satisfy \<open>Pold\<close>, the new
  map satisfies \<open>Pnew\<close>, and a segment of the new map that reaches beyond the last
  match still satisfies \<open>Pold\<close>. \<open>normal\<close> is the range \<open>addrange\<close> inserts.
\<close>

fun ordered_from :: "int \<Rightarrow> (nat \<times> nat) list \<Rightarrow> bool" where
  "ordered_from lo [] = True"
| "ordered_from lo ((ix, len) # ms) = (lo \<le> int ix \<and> ordered_from (int ix + int len) ms)"

fun matched :: "(nat \<times> nat) list \<Rightarrow> int set" where
  "matched [] = {}"
| "matched ((ix, len) # ms) = {int ix ..< int ix + int len} \<union> matched ms"


definition cursor :: "int \<Rightarrow> seg list \<Rightarrow> pstate \<Rightarrow> bool" where
  "cursor lo mp p = (p_i p \<le> length mp \<and> between lo (p_newmap p) (drop (p_i p) mp))"

fun nonempty_matches :: "(nat \<times> nat) list \<Rightarrow> bool" where
  "nonempty_matches [] = True"
| "nonempty_matches ((ix, len) # ms) = (0 < len \<and> nonempty_matches ms)"

definition normal :: "rng \<Rightarrow> rng" where
  "normal r = (if start r > endp r then \<lparr>start = endp r, endp = start r\<rparr> else r)"






definition in_order :: "string list \<Rightarrow> seg list \<Rightarrow> bool" where
  "in_order app mp = (\<forall>sg \<in> set mp. subseq (map setname (origs sg)) app)"

text \<open>
  A sequence of Segment-mode insertions on one text. An insertion of matches is
  admissible when the matches are ordered and do not overlap, and non-empty when no
  match, or the range, is of length zero; \<open>inserted\<close> is what it asks to cover.
\<close>

datatype insertion = Matches regex string | Range rng string

fun apply_insertion :: "string \<Rightarrow> seg list \<Rightarrow> insertion \<Rightarrow> seg list" where
  "apply_insertion text mp (Matches re sn) = addmatches text re sn True mp"
| "apply_insertion text mp (Range r sn) = addrange text r sn True mp"

fun admissible :: "string \<Rightarrow> insertion \<Rightarrow> bool" where
  "admissible text (Matches re sn) = ordered_from 0 (matchAll re text)"
| "admissible text (Range r sn) = True"

fun nonempty :: "string \<Rightarrow> insertion \<Rightarrow> bool" where
  "nonempty text (Matches re sn) = nonempty_matches (matchAll re text)"
| "nonempty text (Range r sn) = (start r \<noteq> endp r)"

fun inserted :: "string \<Rightarrow> insertion \<Rightarrow> int set" where
  "inserted text (Matches re sn) = (if global re then matched (matchAll re text) else {})"
| "inserted text (Range r sn) = {min (start r) (endp r) ..< max (start r) (endp r)}"

text \<open>A start tag \<open>t\<close> is the one of \<open>layer\<close> when it begins with \<open><\<close> and the tag name
  configured for the layer.\<close>

definition opens :: "opts option \<Rightarrow> (string \<times> def) list option \<Rightarrow> orig \<Rightarrow> string \<Rightarrow> bool" where
  "opens op defs layer t = (case tag op defs layer False of Some tg \<Rightarrow> prefix (''<'' @ tg) t | None \<Rightarrow> False)"

section \<open>Facts about the string primitives\<close>









section \<open>The replace operations\<close>





text \<open>
  Claim C10. An index at or beyond the length of the map is a silent no-op: \<open>replace\<close>
  returns the text unchanged.
\<close>

theorem replace_out_of_range: "i \<ge> length mp \<Longrightarrow> replace text mp i newtext = Some text"
  by (simp add: replace_def)

theorem replace_out_of_range_witness:
  "(1::nat) \<ge> length [mk 0 3 (neworigs ''A'' 0 3 0)]
   \<and> replace ''abc'' [mk 0 3 (neworigs ''A'' 0 3 0)] 1 ''x'' = Some ''abc''"
  using replace_out_of_range [of "[mk 0 3 (neworigs ''A'' 0 3 0)]" 1 "''abc''" "''x''"]
  by simp

section \<open>The depth at which two adjacent segments differ\<close>







section \<open>Facts about the pieces of the renderer\<close>

lemma concat_htmladd: "concat (htmladd p h) = concat h @ p"
  by (simp add: htmladd_def)

lemma htmladd_Nil: "htmladd [] h = h"
  by (simp add: htmladd_def)

lemma htmladd_nonempty: "p \<noteq> [] \<Longrightarrow> htmladd p h = h @ [p]"
  by (simp add: htmladd_def)

lemma htmladd_snoc: "htmladd p (h @ [x]) = h @ x # htmladd p []"
  by (simp add: htmladd_def)

lemma htmladd_single: "htmladd p [x] = x # htmladd p []"
  by (simp add: htmladd_def)

lemma raw2HTML_Nil: "raw2HTML [] = []"
  by (simp add: raw2HTML_def replace_char_def)

lemma js_slice_same: "js_slice t k k = []"
  by (simp add: js_slice_def)

lemmas tag_defs = layersstart_def layersend_def difdepth_def difdepth_loop.simps istagdif_def
  tagstart_def tagend_def tag_def extractto_name_def is_tagchar_def mk_def neworigs_def Let_def

lemmas step_simps = markup_step_def js_slice_same raw2HTML_Nil htmladd_Nil Let_def neworigs_def
   htmladd_nonempty htmladd_snoc htmladd_single

lemmas insert_defs = addrange_def addmatches_def insertrange_def segment_def segment_loop.simps
  copy_before.simps seg2_def push_def addendranges_def p0_def Let_def

text \<open>The loop of \<open>markup\<close> over a map of one, two and three segments.\<close>

lemma markup_loop_end: "length mp \<le> i \<Longrightarrow> markup_loop t mp op defs cb i s = Some s"
  by (subst markup_loop.simps) simp

lemma markup_loop_step:
  "i < length mp \<Longrightarrow>
   markup_loop t mp op defs cb i s =
     markup_step t mp op defs cb i s \<bind> markup_loop t mp op defs cb (Suc i)"
  by (subst markup_loop.simps) (simp split: option.splits)

section \<open>Overlap nesting: \<open>A = [0,10)\<close>, then \<open>B = [3,6)\<close>\<close>

lemma overlap_map:
  "addrange text \<lparr>start = 3, endp = 6\<rparr> ''B'' True
     (addrange text \<lparr>start = 0, endp = 10\<rparr> ''A'' True [])
   = [segA1, segAB, segA2]"
  by (simp add: insert_defs segA1_def segAB_def segA2_def mk_def neworigs_def)

lemma seg_sel:
  "seg_range segA1 = \<lparr>start = 0, endp = 3\<rparr>"
  "seg_range segAB = \<lparr>start = 3, endp = 6\<rparr>"
  "seg_range segA2 = \<lparr>start = 6, endp = 10\<rparr>"
  "origs segA1 = neworigs ''A'' 0 10 0"
  "origs segAB = neworigs ''A'' 0 10 0 @ neworigs ''B'' 3 6 0"
  "origs segA2 = neworigs ''A'' 0 10 0"
  by (simp_all add: segA1_def segAB_def segA2_def mk_def)

lemmas segAB_defs = segA1_def segAB_def segA2_def

lemma open_segA1:
  \<open>layersstart text None None None None segA1 i pidx st
     = Some (''<mark class="A L  ">'', st(''A'' \<mapsto> (17, pidx)))\<close>
  by (simp add: tag_defs segAB_defs eval_nat_numeral)

lemma open_segAB:
  \<open>layersstart text None None None (Some segA1) segAB i pidx st
     = Some (''<mark class="B L  ">'', st(''B'' \<mapsto> (17, pidx)))\<close>
  by (simp add: tag_defs segAB_defs eval_nat_numeral)

lemma open_segA2: \<open>layersstart text None None None (Some segAB) segA2 i pidx st = Some ([], st)\<close>
  by (simp add: tag_defs segAB_defs)

lemma close_segA1: \<open>layersend None None segA1 (Some segAB) = Some []\<close>
  by (simp add: tag_defs segAB_defs)

lemma close_segAB: \<open>layersend None None segAB (Some segA2) = Some ''</mark>''\<close>
  by (simp add: tag_defs segAB_defs)

lemma close_segA2: \<open>layersend None None segA2 None = Some ''</mark>''\<close>
  by (simp add: tag_defs segAB_defs)

lemma patchA:
  \<open>js_slice ''<mark class="A L  ">'' 0 17 @ CHR ''R'' # js_slice_from ''<mark class="A L  ">'' 18
     = ''<mark class="A L R">''\<close>
  by code_simp

lemma patchB:
  \<open>js_slice ''<mark class="B L  ">'' 0 17 @ CHR ''R'' # js_slice_from ''<mark class="B L  ">'' 18
     = ''<mark class="B L R">''\<close>
  by code_simp

lemma step_segA1:
  \<open>markup_step text [segA1, segAB, segA2] None None None 0
      \<lparr>m_html = [], m_text = [], m_starts = Map.empty, m_n = 0, m_prevseg = None\<rparr> =
   Some \<lparr>m_html = ''<mark class="A L  ">'' # htmladd (raw2HTML (js_slice text 0 3)) [],
         m_text = [], m_starts = [''A'' \<mapsto> (17, 0)], m_n = 3, m_prevseg = Some segA1\<rparr>\<close>
  by (simp add: open_segA1 close_segA1 step_simps seg_sel)

lemma step_segAB:
  \<open>markup_step text [segA1, segAB, segA2] None None None (Suc 0)
      \<lparr>m_html = h, m_text = [], m_starts = [''A'' \<mapsto> (17, 0)], m_n = 3,
       m_prevseg = Some segA1\<rparr> =
   Some \<lparr>m_html = h @ ''<mark class="B L R">'' # htmladd (raw2HTML (js_slice text 3 6)) []
                   @ [''</mark>''],
         m_text = [], m_starts = [''A'' \<mapsto> (17, 0)], m_n = 6, m_prevseg = Some segAB\<rparr>\<close>
  by (simp add: open_segAB close_segAB step_simps seg_sel patchB fun_upd_twist)

lemma step_segA2:
  \<open>markup_step text [segA1, segAB, segA2] None None None (Suc (Suc 0))
      \<lparr>m_html = ''<mark class="A L  ">'' # h, m_text = [], m_starts = [''A'' \<mapsto> (17, 0)],
       m_n = 6, m_prevseg = Some segAB\<rparr> =
   Some \<lparr>m_html = ''<mark class="A L R">'' # h @ [raw2HTML (js_slice text 6 10) @ ''</mark>''],
         m_text = [], m_starts = Map.empty, m_n = 10, m_prevseg = Some segA2\<rparr>\<close>
  by (simp add: open_segA2 close_segA2 step_simps seg_sel patchA)

lemma overlap_markup:
  \<open>markup text [segA1, segAB, segA2] None None None =
   Some (''<mark class="A L R">'' @ raw2HTML (js_slice text 0 3)
         @ ''<mark class="B L R">'' @ raw2HTML (js_slice text 3 6) @ ''</mark>''
         @ raw2HTML (js_slice text 6 10) @ ''</mark>'' @ raw2HTML (js_slice_from text 10))\<close>
  unfolding markup_def
  by (simp add: markup_loop_step markup_loop_end step_segA1 step_segAB step_segA2 concat_htmladd)

text \<open>
  Claim C2. Inserting \<open>A = [0,10)\<close> and then \<open>B = [3,6)\<close> in Segment mode into the empty
  map gives exactly the segments \<open>{[0,3),[A]}\<close>, \<open>{[3,6),[A,B]}\<close>, \<open>{[6,10),[A]}\<close>, with
  \<open>A\<close>'s origin before \<open>B\<close>'s in the middle one. Rendering that map, for any text, opens
  one tag for \<open>A\<close> before the first segment, opens the tag of \<open>B\<close> with class \<open>B L R\<close> at
  the second, closes only that tag after the second, and closes \<open>A\<close>'s tag once after the
  third: \<open>A\<close> is never reopened.
\<close>

theorem overlap_nesting:
  \<open>addrange text \<lparr>start = 3, endp = 6\<rparr> ''B'' True
     (addrange text \<lparr>start = 0, endp = 10\<rparr> ''A'' True [])
   = [mk 0 3 (neworigs ''A'' 0 10 0),
      mk 3 6 (neworigs ''A'' 0 10 0 @ neworigs ''B'' 3 6 0),
      mk 6 10 (neworigs ''A'' 0 10 0)]
   \<and> markup text
        [mk 0 3 (neworigs ''A'' 0 10 0),
         mk 3 6 (neworigs ''A'' 0 10 0 @ neworigs ''B'' 3 6 0),
         mk 6 10 (neworigs ''A'' 0 10 0)] None None None
     = Some (''<mark class="A L R">'' @ raw2HTML (js_slice text 0 3)
             @ ''<mark class="B L R">'' @ raw2HTML (js_slice text 3 6) @ ''</mark>''
             @ raw2HTML (js_slice text 6 10) @ ''</mark>''
             @ raw2HTML (js_slice_from text 10))\<close>
  using overlap_map [of "text"] overlap_markup [of "text"] by (simp add: segAB_defs)

theorem overlap_nesting_witness:
  \<open>markup ''0123456789''
     (addrange ''0123456789'' \<lparr>start = 3, endp = 6\<rparr> ''B'' True
       (addrange ''0123456789'' \<lparr>start = 0, endp = 10\<rparr> ''A'' True [])) None None None
   = Some ''<mark class="A L R">012<mark class="B L R">345</mark>6789</mark>''\<close>
  using overlap_nesting [of "''0123456789''"]
  by (simp add: js_slice_def js_slice_from_def js_slice_index_def raw2HTML_def replace_char_def)

section \<open>Zero-length ranges and matches\<close>

text \<open>
  Claim C5 fails on the code: \<open>_seg2\<close> pushes the intersection without testing that it
  is not empty. A zero-length range, or a zero-length match, that falls strictly inside
  an existing segment splits that segment in two and is stored between the halves as a
  zero-length segment carrying both origins; the map is not the one obtained by omitting
  the input.
\<close>

theorem zero_length_input_stored:
  \<open>addrange ''0123456789'' \<lparr>start = 5, endp = 5\<rparr> ''B'' True [mk 0 10 (neworigs ''A'' 0 10 0)]
     = [mk 0 5 (neworigs ''A'' 0 10 0),
        mk 5 5 (neworigs ''A'' 0 10 0 @ neworigs ''B'' 5 5 0),
        mk 5 10 (neworigs ''A'' 0 10 0)]
   \<and> addmatches ''ab'' (RegExp True (\<lambda>t. [(0, 0), (1, 0), (2, 0)])) ''B'' True
        [mk 0 2 (neworigs ''A'' 0 2 0)]
     = [mk 0 1 (neworigs ''A'' 0 2 0),
        mk 1 1 (neworigs ''A'' 0 2 0 @ neworigs ''B'' 1 1 1),
        mk 1 2 (neworigs ''A'' 0 2 0)]\<close>
  by code_simp

text \<open>
  Claim C1 fails on the code for the same reason: after the range \<open>[0,10)\<close> the map is
  ascending; inserting the zero-length range \<open>[5,5)\<close> leaves the segments \<open>[0,5)\<close>,
  \<open>[5,5)\<close>, \<open>[5,10)\<close>, whose starts are not strictly ascending.
\<close>

theorem zero_length_breaks_ascending:
  \<open>ascending (addrange ''0123456789'' \<lparr>start = 0, endp = 10\<rparr> ''A'' True [])
   \<and> map seg_range (addrange ''0123456789'' \<lparr>start = 5, endp = 5\<rparr> ''B'' True
          (addrange ''0123456789'' \<lparr>start = 0, endp = 10\<rparr> ''A'' True []))
       = [\<lparr>start = 0, endp = 5\<rparr>, \<lparr>start = 5, endp = 5\<rparr>, \<lparr>start = 5, endp = 10\<rparr>]
   \<and> \<not> ascending (addrange ''0123456789'' \<lparr>start = 5, endp = 5\<rparr> ''B'' True
          (addrange ''0123456789'' \<lparr>start = 0, endp = 10\<rparr> ''A'' True []))\<close>
  by code_simp

theorem zero_length_breaks_ascending_witness:
  \<open>\<not> ascending (addrange ''0123456789'' \<lparr>start = 5, endp = 5\<rparr> ''B'' True
          (addrange ''0123456789'' \<lparr>start = 0, endp = 10\<rparr> ''A'' True []))\<close>
  using zero_length_breaks_ascending by simp

section \<open>The \<open>R\<close> marker\<close>

text \<open>
  Claim C6 fails on the code: \<open>_setlayerright\<close> runs only when the segment emits a
  closing tag. A class configured without closing tag (\<open>htmltagend: ''\<close>, as the
  \<open>input\<close> pattern of the demo series) whose match is a segment of its own is opened
  with the \<open>L\<close> marker and never gets the \<open>R\<close> marker, although the origin ends with the
  segment.
\<close>

theorem void_tag_without_R:
  \<open>series_markup
     [(''input'', \<lparr>d_regex = Some (RegExp True (\<lambda>t. [(0, 1)])), d_range = None,
                  htmltag = Some ''input'', htmltagend = Some [], htmlattrs = None\<rparr>)]
     ''x'' None True None
   = Some ''<input class="input L  ">x''\<close>
  by code_simp

section \<open>Queries by offset\<close>

lemma ascending_nth:
  assumes "ascending mp" "k < k'" "k' < length mp"
  shows "endp (seg_range (mp ! k)) \<le> start (seg_range (mp ! k'))"
  using assms by (simp add: ascending_def sorted_wrt_iff_nth_less)

lemma ascending_nonempty:
  assumes "ascending mp" "k < length mp"
  shows "start (seg_range (mp ! k)) < endp (seg_range (mp ! k))"
  using assms by (simp add: ascending_def)

lemma ascending_boundary:
  assumes "ascending mp"
  shows "\<exists>a. boundary pos mp a"
proof -
  let ?P = "\<lambda>s. endp (seg_range s) \<le> pos"
  let ?a = "length (takeWhile ?P mp)"
  have le: "?a \<le> length mp" by (rule length_takeWhile_le)
  have "endp (seg_range (mp ! k)) \<le> pos \<longleftrightarrow> k < ?a" if k: "k < length mp" for k
  proof
    assume "k < ?a" then show "?P (mp ! k)"
      by (metis nth_mem set_takeWhileD takeWhile_nth)
  next
    assume p: "?P (mp ! k)"
    show "k < ?a"
    proof (rule ccontr)
      assume "\<not> k < ?a"
      then have ak: "?a \<le> k" by simp
      then have alt: "?a < length mp" using k by simp
      have na: "\<not> ?P (mp ! ?a)" using alt by (rule nth_length_takeWhile)
      show False
      proof (cases "?a = k")
        case True then show ?thesis using na p by simp
      next
        case False
        then have "?a < k" using ak by simp
        then have "endp (seg_range (mp ! ?a)) \<le> start (seg_range (mp ! k))"
          using ascending_nth [OF assms _ k] by simp
        moreover have "start (seg_range (mp ! k)) < endp (seg_range (mp ! k))"
          using ascending_nonempty [OF assms k] .
        ultimately show ?thesis using na p by simp
      qed
    qed
  qed
  then show ?thesis using le unfolding boundary_def by blast
qed

lemma next_loop_boundary:
  assumes "boundary pos mp a" "i \<le> a"
  shows "next_loop pos mp i = a"
  using assms
proof (induction pos mp i rule: next_loop.induct)
  case (1 pos mp i)
  show ?case
  proof (cases "i < a")
    case True
    then have "i < length mp" "endp (seg_range (mp ! i)) \<le> pos"
      using "1.prems" by (auto simp: boundary_def)
    moreover have "next_loop pos mp (i + 1) = a"
      using "1.IH" calculation "1.prems" True by simp
    ultimately show ?thesis by (subst next_loop.simps) simp
  next
    case False
    then have "i = a" using "1.prems" by simp
    then have "\<not> (i < length mp \<and> endp (seg_range (mp ! i)) \<le> pos)"
      using "1.prems" by (auto simp: boundary_def)
    then show ?thesis using \<open>i = a\<close> by (subst next_loop.simps) auto
  qed
qed

lemma jsround_zero_iff: "jsround j = 0 \<longleftrightarrow> - (1 / 2) \<le> j \<and> j < 1 / 2"
  unfolding jsround_def by linarith

lemma binsearch_boundary:
  assumes "boundary pos mp a" "1 \<le> a" "a < length mp"
    and "0 < j" "j \<le> i" "i \<le> rat_of_nat (length mp) - j" "i - j < rat_of_nat a - 1 / 2"
  shows "\<exists>r. binsearch pos mp i j = Some r \<and> 0 \<le> jsround r \<and> jsround r \<le> int a"
  using assms
proof (induction pos mp i j rule: binsearch.induct)
  case (1 pos mp i j)
  show ?case
  proof (cases "jsround j = 0")
    case True
    then have "j < 1 / 2" by (simp add: jsround_zero_iff)
    then have "i < rat_of_nat a" using "1.prems" by linarith
    then have "jsround i \<le> int a" unfolding jsround_def by linarith
    moreover have "0 \<le> jsround i" using "1.prems" unfolding jsround_def by linarith
    ultimately show ?thesis using True by (subst binsearch.simps) simp
  next
    case False
    then have jge: "1 / 2 \<le> j" using "1.prems"(4) by (simp add: jsround_zero_iff)
    have lo: "0 \<le> jsround i" using "1.prems" unfolding jsround_def by linarith
    have hi: "jsround i < int (length mp)"
    proof (cases "1 \<le> j")
      case True
      then have "i \<le> rat_of_nat (length mp) - 1" using "1.prems" by linarith
      then show ?thesis unfolding jsround_def by linarith
    next
      case False
      have "rat_of_nat a \<le> rat_of_nat (length mp) - 1" using "1.prems"(3)
        by (metis Suc_leI of_nat_Suc of_nat_le_iff le_diff_eq add.commute)
      then have "i < rat_of_nat (length mp) - 1 / 2" using "1.prems" False by linarith
      then show ?thesis unfolding jsround_def by linarith
    qed
    let ?k = "nat (jsround i)"
    have klt: "?k < length mp" using lo hi by simp
    show ?thesis
    proof (cases "endp (seg_range (mp ! ?k)) \<le> pos")
      case True
      then have "?k < a" using "1.prems"(1) klt by (simp add: boundary_def)
      then have "jsround i + 1 \<le> int a" using lo by linarith
      then have "i < rat_of_nat a - 1 / 2" unfolding jsround_def by linarith
      then have "\<exists>r. binsearch pos mp (i + j / 2) (j / 2) = Some r \<and> 0 \<le> jsround r \<and> jsround r \<le> int a"
        using "1.IH"(1) [OF False _ True] lo hi "1.prems" by simp
      then show ?thesis using False lo hi True by (subst binsearch.simps) simp
    next
      case nle: False
      have "\<exists>r. binsearch pos mp (i - j / 2) (j / 2) = Some r \<and> 0 \<le> jsround r \<and> jsround r \<le> int a"
        using "1.IH"(2) [OF False _ nle] lo hi "1.prems" by simp
      then show ?thesis using False lo hi nle by (subst binsearch.simps) simp
    qed
  qed
qed

lemma next_boundary:
  assumes "ascending mp" "boundary pos mp a" "mp \<noteq> []"
  shows "next pos mp = Some (int a)"
proof -
  let ?n = "length mp"
  have n0: "0 < ?n" using assms(3) by simp
  show ?thesis
  proof (cases "endp (seg_range (mp ! 0)) > pos")
    case True
    then have "a = 0" using assms(2) n0 by (auto simp: boundary_def)
    then show ?thesis using True assms next_loop_boundary [OF assms(2), of 0]
      by (simp add: next_def)
  next
    case first: False
    then have a1: "1 \<le> a" using assms(2) n0 by (auto simp: boundary_def)
    show ?thesis
    proof (cases "pos < start (seg_range (mp ! (?n - 1)))")
      case True
      then have "\<not> endp (seg_range (mp ! (?n - 1))) \<le> pos"
        using ascending_nonempty [OF assms(1), of "?n - 1"] n0 by simp
      then have alt: "a < ?n" using assms(2) n0 by (auto simp: boundary_def)
      have "rat_of_nat 1 \<le> rat_of_nat a" using a1 by (simp only: of_nat_le_iff)
      then have "(0::rat) < rat_of_nat a - 1 / 2" by simp
      then obtain r where r: "binsearch pos mp (rat_of_nat ?n / 2) (rat_of_nat ?n / 2) = Some r"
          "0 \<le> jsround r" "jsround r \<le> int a"
        using binsearch_boundary [OF assms(2) a1 alt, of "rat_of_nat ?n / 2" "rat_of_nat ?n / 2"] n0
        by auto
      have "next_loop pos mp (nat (jsround r)) = a"
        using next_loop_boundary [OF assms(2), of "nat (jsround r)"] r by simp
      then show ?thesis using first True assms(3) r by (simp add: next_def)
    next
      case False
      have "?n - 1 \<le> a"
      proof (rule ccontr)
        assume "\<not> ?n - 1 \<le> a"
        then have lt: "a < ?n - 1" by simp
        then have "endp (seg_range (mp ! a)) \<le> start (seg_range (mp ! (?n - 1)))"
          using ascending_nth [OF assms(1), of a "?n - 1"] n0 by simp
        then have "endp (seg_range (mp ! a)) \<le> pos" using False by simp
        then show False using assms(2) lt by (auto simp: boundary_def)
      qed
      then have "next_loop pos mp (?n - 1) = a"
        using next_loop_boundary [OF assms(2)] by simp
      then show ?thesis using first False assms(3) by (simp add: next_def)
    qed
  qed
qed

text \<open>
  Claim C9. On a map that satisfies the invariant, \<open>atpos\<close> returns the index of the
  segment whose half-open range contains the offset, and \<open>-1\<close> when no segment contains
  it (the offset lies in a gap, before the first segment, at or after the end of the last
  one, or the map is empty). The search never reads outside the array: the result is
  \<open>Some\<close>. At most one segment contains an offset.
\<close>

theorem atpos_containing:
  assumes "ascending mp"
  shows "(k < length mp \<and> inseg pos (mp ! k) \<longrightarrow> atpos pos mp = Some (int k))
       \<and> ((\<forall>k < length mp. \<not> inseg pos (mp ! k)) \<longrightarrow> atpos pos mp = Some (- 1))
       \<and> (k < length mp \<and> inseg pos (mp ! k) \<and> k' < length mp \<and> inseg pos (mp ! k')
            \<longrightarrow> k = k')"
proof (cases "mp = []")
  case False
  obtain a where a: "boundary pos mp a" using ascending_boundary [OF assms] by blast
  have nx: "next pos mp = Some (int a)" using next_boundary [OF assms a False] .
  have isp: "isposin pos mp (int a) \<longleftrightarrow> a < length mp \<and> inseg pos (mp ! a)"
    using a by (auto simp: isposin_def inseg_def boundary_def)
  have uniq: "k = a" if "k < length mp" "inseg pos (mp ! k)" for k
  proof -
    have "\<not> endp (seg_range (mp ! k)) \<le> pos" using that by (simp add: inseg_def)
    then have ak: "a \<le> k" using a that(1) by (auto simp: boundary_def)
    show ?thesis
    proof (rule ccontr)
      assume "k \<noteq> a"
      then have "a < k" using ak by simp
      then have "endp (seg_range (mp ! a)) \<le> start (seg_range (mp ! k))"
        using ascending_nth [OF assms _ that(1)] by simp
      then have "endp (seg_range (mp ! a)) \<le> pos" using that(2) by (simp add: inseg_def)
      then show False using a \<open>a < k\<close> that(1) by (auto simp: boundary_def)
    qed
  qed
  show ?thesis
  proof (intro conjI impI)
    assume "k < length mp \<and> inseg pos (mp ! k)"
    then have "k = a" "a < length mp" "inseg pos (mp ! a)" using uniq by auto
    then show "atpos pos mp = Some (int k)" using nx isp by (simp add: atpos_def)
  next
    assume "\<forall>k < length mp. \<not> inseg pos (mp ! k)"
    then have "\<not> isposin pos mp (int a)" using isp by blast
    then show "atpos pos mp = Some (- 1)" using nx by (simp add: atpos_def)
  next
    assume "k < length mp \<and> inseg pos (mp ! k) \<and> k' < length mp \<and> inseg pos (mp ! k')"
    then show "k = k'" using uniq [of k] uniq [of k'] by simp
  qed
next
  case True
  then show ?thesis by (simp add: atpos_def next_def isposin_def)
qed

text \<open>The theorem on a map of four segments with gaps: an offset inside the third
  segment, which the binary search has to find, and an offset in the gap before it.\<close>

theorem atpos_containing_witness:
  "ascending [mk 0 5 [], mk 10 15 [], mk 20 25 [], mk 30 35 []]
   \<and> atpos 22 [mk 0 5 [], mk 10 15 [], mk 20 25 [], mk 30 35 []] = Some 2
   \<and> atpos 17 [mk 0 5 [], mk 10 15 [], mk 20 25 [], mk 30 35 []] = Some (- 1)"
  using atpos_containing [of "[mk 0 5 [], mk 10 15 [], mk 20 25 [], mk 30 35 []]" 2 22 2]
    atpos_containing [of "[mk 0 5 [], mk 10 15 [], mk 20 25 [], mk 30 35 []]" 0 17 0]
  by (simp add: ascending_def inseg_def mk_def less_Suc_eq eval_nat_numeral)


section \<open>A single match over the whole document\<close>















section \<open>The segmentation loop\<close>

lemma seg2_eq:
  "seg2 m i p = (seg2_right m i, p\<lparr>p_newmap := p_newmap p @ seg2_left m i @ [seg2_mid m i]\<rparr>)"
  by (simp add: seg2_def seg2_left_def seg2_mid_def seg2_right_def push_def Let_def)

lemma merge_list_suffix:
  "merge_list m rest = (pushed, m', rest') \<Longrightarrow> \<exists>pre. rest = pre @ rest'"
proof (induction rest arbitrary: m pushed)
  case Nil
  then show ?case by simp
next
  case (Cons i rest)
  show ?case
  proof (cases "sstart i < send m")
    case True
    then obtain pu where "merge_list (seg2_right m i) rest = (pu, m', rest')"
      using Cons.prems by (auto split: prod.splits)
    then obtain pre where "rest = pre @ rest'" using Cons.IH by blast
    then have "i # rest = (i # pre) @ rest'" by simp
    then show ?thesis by blast
  next
    case False
    then show ?thesis using Cons.prems by auto
  qed
qed

lemma segment_loop_merge:
  assumes "p_i p \<le> length mp" "merge_list m (drop (p_i p) mp) = (pushed, m', rest')"
  shows "segment_loop m mp p
         = (m', p\<lparr>p_newmap := p_newmap p @ pushed, p_i := length mp - length rest'\<rparr>)
       \<and> rest' = drop (length mp - length rest') mp"
  using assms
proof (induction m mp p arbitrary: pushed rule: segment_loop.induct)
  case (1 m mp p)
  show ?case
  proof (cases "p_i p < length mp")
    case False
    then have "drop (p_i p) mp = []" by simp
    then have "pushed = []" "m' = m" "rest' = []" using "1.prems" by simp_all
    then show ?thesis using False "1.prems"(1) by (subst segment_loop.simps) simp
  next
    case lt: True
    then have dr: "drop (p_i p) mp = mp ! p_i p # drop (Suc (p_i p)) mp"
      by (simp add: Cons_nth_drop_Suc)
    show ?thesis
    proof (cases "sstart (mp ! p_i p) < send m")
      case False
      then have "pushed = []" "m' = m" "rest' = drop (p_i p) mp"
        using "1.prems"(2) dr by simp_all
      then show ?thesis using False lt by (subst segment_loop.simps) simp
    next
      case True
      let ?i = "mp ! p_i p"
      let ?p1 = "(p\<lparr>p_newmap := p_newmap p @ seg2_left m ?i @ [seg2_mid m ?i]\<rparr>)\<lparr>p_i := p_i p + 1\<rparr>"
      obtain pu where pu: "merge_list (seg2_right m ?i) (drop (Suc (p_i p)) mp) = (pu, m', rest')"
        and pushed: "pushed = seg2_left m ?i @ [seg2_mid m ?i] @ pu"
        using "1.prems"(2) dr True by (auto split: prod.splits)
      have ih: "segment_loop (seg2_right m ?i) mp ?p1
           = (m', ?p1\<lparr>p_newmap := p_newmap ?p1 @ pu, p_i := length mp - length rest'\<rparr>)
         \<and> rest' = drop (length mp - length rest') mp"
        using "1.IH" [of "seg2_right m ?i" _ pu] lt True pu by (simp add: seg2_eq)
      show ?thesis
        using ih lt True pushed by (subst segment_loop.simps) (simp add: seg2_eq)
    qed
  qed
qed

lemma mk_sel [simp]:
  "sstart (mk s e os) = s" "send (mk s e os) = e" "origs (mk s e os) = os"
  by (simp_all add: mk_def)

lemma wasc_Nil [simp]: "wasc []"
  by (simp add: wasc_def)

lemma wasc_Cons:
  "wasc (x # xs) \<longleftrightarrow> sstart x \<le> send x \<and> (\<forall>y \<in> set xs. send x \<le> sstart y) \<and> wasc xs"
  by (auto simp: wasc_def)

lemma wasc_append:
  "wasc (xs @ ys) \<longleftrightarrow> wasc xs \<and> wasc ys \<and> (\<forall>x \<in> set xs. \<forall>y \<in> set ys. send x \<le> sstart y)"
  by (auto simp: wasc_def sorted_wrt_append)

lemma in_seg2_left:
  "x \<in> set (seg2_left m i) \<longleftrightarrow>
     sstart m \<noteq> sstart i
     \<and> x = mk (min (sstart m) (sstart i)) (max (sstart m) (sstart i))
              (if sstart m < sstart i then origs m else origs i)"
  by (auto simp: seg2_left_def min_def max_def)

lemma seg2_sel [simp]:
  "sstart (seg2_mid m i) = max (sstart m) (sstart i)"
  "send (seg2_mid m i) = min (send m) (send i)"
  "origs (seg2_mid m i) = origs i @ origs m"
  "sstart (seg2_right m i) = min (send m) (send i)"
  "send (seg2_right m i) = max (send m) (send i)"
  "origs (seg2_right m i) = (if send i < send m then origs m else origs i)"
  by (auto simp: seg2_mid_def seg2_right_def min_def max_def)

lemma wasc_seg2_left [simp]: "wasc (seg2_left m i)"
  by (simp add: seg2_left_def wasc_Cons)

lemma merge_list_subset:
  "merge_list m rest = (pushed, m', rest') \<Longrightarrow> set rest' \<subseteq> set rest"
  using merge_list_suffix by fastforce

lemma merge_list_lower:
  assumes "merge_list m rest = (pushed, m', rest')"
    and "b \<le> sstart m" "b \<le> send m" "\<forall>r \<in> set rest. b \<le> sstart r \<and> b \<le> send r"
  shows "\<forall>y \<in> set (pushed @ [m']). b \<le> sstart y"
  using assms
proof (induction rest arbitrary: m pushed)
  case Nil
  then show ?case by simp
next
  case (Cons i rest)
  show ?case
  proof (cases "sstart i < send m")
    case False
    then show ?thesis using Cons.prems by auto
  next
    case True
    then obtain pu where pu: "merge_list (seg2_right m i) rest = (pu, m', rest')"
      and pushed: "pushed = seg2_left m i @ [seg2_mid m i] @ pu"
      using Cons.prems(1) by (auto split: prod.splits)
    have "\<forall>y \<in> set (pu @ [m']). b \<le> sstart y"
      using Cons.IH [OF pu] Cons.prems by (auto simp: min_def max_def)
    then show ?thesis using pushed Cons.prems by (auto simp: in_seg2_left min_def max_def)
  qed
qed

lemma merge_list_wasc:
  assumes "merge_list m rest = (pushed, m', rest')"
    and "wasc rest" "sstart m \<le> send m" "\<forall>r \<in> set rest. sstart m \<le> send r"
  shows "wasc (pushed @ m' # rest')"
  using assms
proof (induction rest arbitrary: m pushed)
  case Nil
  then show ?case by (simp add: wasc_Cons)
next
  case (Cons i rest)
  show ?case
  proof (cases "sstart i < send m")
    case False
    have "\<forall>y \<in> set rest. send m \<le> sstart y"
    proof
      fix y assume "y \<in> set rest"
      then have "send i \<le> sstart y" using Cons.prems(2) by (simp add: wasc_Cons)
      moreover have "sstart i \<le> send i" using Cons.prems(2) by (simp add: wasc_Cons)
      ultimately show "send m \<le> sstart y" using False by linarith
    qed
    then show ?thesis using False Cons.prems by (auto simp: wasc_Cons)
  next
    case True
    then obtain pu where pu: "merge_list (seg2_right m i) rest = (pu, m', rest')"
      and pushed: "pushed = seg2_left m i @ [seg2_mid m i] @ pu"
      using Cons.prems(1) by (auto split: prod.splits)
    have wr: "wasc rest" and ir: "\<forall>r \<in> set rest. send i \<le> sstart r" and ii: "sstart i \<le> send i"
      using Cons.prems(2) by (auto simp: wasc_Cons)
    have rr: "\<forall>r \<in> set rest. sstart r \<le> send r" using wr by (simp add: wasc_def)
    have a1: "sstart (seg2_right m i) \<le> send (seg2_right m i)" by simp
    have a2: "\<forall>r \<in> set rest. sstart (seg2_right m i) \<le> send r"
    proof
      fix r assume "r \<in> set rest"
      then have "send i \<le> sstart r" "sstart r \<le> send r" using ir rr by auto
      then show "sstart (seg2_right m i) \<le> send r" by (simp add: min_def)
    qed
    have ih: "wasc (pu @ m' # rest')"
      using Cons.IH [OF pu wr a1 a2] .
    have a3: "\<forall>r \<in> set rest. min (send m) (send i) \<le> sstart r \<and> min (send m) (send i) \<le> send r"
    proof
      fix r assume "r \<in> set rest"
      then have "send i \<le> sstart r" "sstart r \<le> send r" using ir rr by auto
      then show "min (send m) (send i) \<le> sstart r \<and> min (send m) (send i) \<le> send r"
        by (simp add: min_def)
    qed
    have lb: "\<forall>y \<in> set (pu @ [m']). min (send m) (send i) \<le> sstart y"
      using merge_list_lower [OF pu _ _ a3] by simp
    have sub: "set rest' \<subseteq> set rest" using merge_list_subset [OF pu] .
    have lr: "\<forall>r \<in> set rest'. min (send m) (send i) \<le> sstart r"
      using sub a3 by blast
    have mi: "sstart m \<le> send i" using Cons.prems(4) by simp
    have "wasc (seg2_left m i @ [seg2_mid m i] @ pu @ m' # rest')"
      using ih lb lr mi ii True Cons.prems(3)
      by (auto simp: wasc_append wasc_Cons in_seg2_left min_def max_def)
    then show ?thesis using pushed by simp
  qed
qed

lemma merge_list_step:
  assumes "merge_list m (i # rest) = (pushed, m', rest')" "sstart i < send m"
  obtains pu where "merge_list (seg2_right m i) rest = (pu, m', rest')"
    and "pushed = seg2_left m i @ [seg2_mid m i] @ pu"
  using assms by (auto split: prod.splits)

lemma merge_list_upper:
  assumes "merge_list m rest = (pushed, m', rest')"
    and "wasc rest" "sstart m \<le> E" "send m \<le> E \<or> (\<forall>r \<in> set rest. send m \<le> sstart r)"
  shows "\<forall>y \<in> set (pushed @ [m']). sstart y \<le> E"
  using assms
proof (induction rest arbitrary: m pushed)
  case Nil
  then show ?case by simp
next
  case (Cons i rest)
  show ?case
  proof (cases "sstart i < send m")
    case False
    then show ?thesis using Cons.prems by auto
  next
    case True
    then have mE: "send m \<le> E" using Cons.prems(4) by auto
    obtain pu where pu: "merge_list (seg2_right m i) rest = (pu, m', rest')"
      and pushed: "pushed = seg2_left m i @ [seg2_mid m i] @ pu"
      using merge_list_step [OF Cons.prems(1) True] by blast
    have wr: "wasc rest" and ir: "\<forall>r \<in> set rest. send i \<le> sstart r"
      using Cons.prems(2) by (auto simp: wasc_Cons)
    have a1: "sstart (seg2_right m i) \<le> E" using mE by (simp add: min_def)
    have a2: "send (seg2_right m i) \<le> E \<or> (\<forall>r \<in> set rest. send (seg2_right m i) \<le> sstart r)"
      using mE ir by (auto simp: max_def)
    have "\<forall>y \<in> set (pu @ [m']). sstart y \<le> E"
      using Cons.IH [OF pu wr a1 a2] .
    then show ?thesis using pushed True mE Cons.prems(3)
      by (auto simp: in_seg2_left min_def max_def)
  qed
qed


lemma covered_Nil [simp]: "covered [] = {}"
  by (simp add: covered_def)

lemma covered_Cons [simp]: "covered (x # xs) = {sstart x ..< send x} \<union> covered xs"
  by (simp add: covered_def)

lemma covered_append [simp]: "covered (xs @ ys) = covered xs \<union> covered ys"
  by (auto simp: covered_def)

lemma covered_seg2_left [simp]:
  "covered (seg2_left m i) = {min (sstart m) (sstart i) ..< max (sstart m) (sstart i)}"
  by (auto simp: seg2_left_def)

lemma seg2_cover:
  assumes "sstart i < send m" "sstart m \<le> send i" "sstart m \<le> send m" "sstart i \<le> send i"
  shows "{min (sstart m) (sstart i) ..< max (sstart m) (sstart i)}
       \<union> {max (sstart m) (sstart i) ..< min (send m) (send i)}
       \<union> {min (send m) (send i) ..< max (send m) (send i)}
       = {sstart m ..< send m} \<union> {sstart i ..< send i}"
  using assms by (auto simp: min_def max_def)

lemma merge_list_covered:
  assumes "merge_list m rest = (pushed, m', rest')"
    and "wasc rest" "sstart m \<le> send m" "\<forall>r \<in> set rest. sstart m \<le> send r"
  shows "covered (pushed @ m' # rest') = {sstart m ..< send m} \<union> covered rest"
  using assms
proof (induction rest arbitrary: m pushed)
  case Nil
  then show ?case by simp
next
  case (Cons i rest)
  show ?case
  proof (cases "sstart i < send m")
    case False
    then show ?thesis using Cons.prems by auto
  next
    case True
    obtain pu where pu: "merge_list (seg2_right m i) rest = (pu, m', rest')"
      and pushed: "pushed = seg2_left m i @ [seg2_mid m i] @ pu"
      using merge_list_step [OF Cons.prems(1) True] by blast
    have wr: "wasc rest" and ir: "\<forall>r \<in> set rest. send i \<le> sstart r" and ii: "sstart i \<le> send i"
      using Cons.prems(2) by (auto simp: wasc_Cons)
    have rr: "\<forall>r \<in> set rest. sstart r \<le> send r" using wr by (simp add: wasc_def)
    have a1: "sstart (seg2_right m i) \<le> send (seg2_right m i)" by simp
    have a2: "\<forall>r \<in> set rest. sstart (seg2_right m i) \<le> send r"
    proof
      fix r assume "r \<in> set rest"
      then have "send i \<le> sstart r" "sstart r \<le> send r" using ir rr by auto
      then show "sstart (seg2_right m i) \<le> send r" by (simp add: min_def)
    qed
    have ih: "covered (pu @ m' # rest')
        = {min (send m) (send i) ..< max (send m) (send i)} \<union> covered rest"
      using Cons.IH [OF pu wr a1 a2] by simp
    have mi: "sstart m \<le> send i" using Cons.prems(4) by simp
    have "covered (pushed @ m' # rest')
        = ({min (sstart m) (sstart i) ..< max (sstart m) (sstart i)}
           \<union> {max (sstart m) (sstart i) ..< min (send m) (send i)}
           \<union> {min (send m) (send i) ..< max (send m) (send i)}) \<union> covered rest"
      using ih pushed by (simp add: Un_assoc)
    also have "\<dots> = ({sstart m ..< send m} \<union> {sstart i ..< send i}) \<union> covered rest"
      using seg2_cover [OF True mi Cons.prems(3) ii] by simp
    finally show ?thesis by (simp add: Un_assoc)
  qed
qed

lemma merge_list_strict:
  assumes "merge_list m rest = (pushed, m', rest')"
    and "wasc rest" "\<forall>r \<in> set rest. sstart r < send r"
    and "\<forall>r \<in> set rest. sstart m < send r"
    and "sstart m < send m \<or> (\<forall>r \<in> set rest. send m \<le> sstart r)"
  shows "\<forall>y \<in> set pushed. sstart y < send y"
  using assms
proof (induction rest arbitrary: m pushed)
  case Nil
  then show ?case by simp
next
  case (Cons i rest)
  show ?case
  proof (cases "sstart i < send m")
    case False
    then show ?thesis using Cons.prems by auto
  next
    case True
    then have mm: "sstart m < send m" using Cons.prems(5) by auto
    obtain pu where pu: "merge_list (seg2_right m i) rest = (pu, m', rest')"
      and pushed: "pushed = seg2_left m i @ [seg2_mid m i] @ pu"
      using merge_list_step [OF Cons.prems(1) True] by blast
    have wr: "wasc rest" and ir: "\<forall>r \<in> set rest. send i \<le> sstart r"
      using Cons.prems(2) by (auto simp: wasc_Cons)
    have rr: "\<forall>r \<in> set rest. sstart r < send r" and ii: "sstart i < send i"
      using Cons.prems(3) by auto
    have mi: "sstart m < send i" using Cons.prems(4) by simp
    have a1: "\<forall>r \<in> set rest. sstart (seg2_right m i) < send r"
    proof
      fix r assume "r \<in> set rest"
      then have "send i \<le> sstart r" "sstart r < send r" using ir rr by auto
      then show "sstart (seg2_right m i) < send r" by (simp add: min_def)
    qed
    have a2: "sstart (seg2_right m i) < send (seg2_right m i)
        \<or> (\<forall>r \<in> set rest. send (seg2_right m i) \<le> sstart r)"
      using ir by (auto simp: min_def max_def)
    have ih: "\<forall>y \<in> set pu. sstart y < send y"
      using Cons.IH [OF pu wr rr a1 a2] .
    show ?thesis using ih pushed True mm mi ii
      by (auto simp: in_seg2_left min_def max_def)
  qed
qed


section \<open>One insertion on lists\<close>

lemma copy_before_list:
  "p_i p \<le> length mp \<Longrightarrow>
   copy_before s mp p =
     p\<lparr>p_newmap := p_newmap p @ takeWhile (\<lambda>x. send x \<le> s) (drop (p_i p) mp),
       p_i := p_i p + length (takeWhile (\<lambda>x. send x \<le> s) (drop (p_i p) mp))\<rparr>"
proof (induction s mp p rule: copy_before.induct)
  case (1 s mp p)
  show ?case
  proof (cases "p_i p < length mp \<and> send (mp ! p_i p) \<le> s")
    case True
    then have dr: "drop (p_i p) mp = mp ! p_i p # drop (Suc (p_i p)) mp"
      by (simp add: Cons_nth_drop_Suc)
    show ?thesis
      using True "1.IH" dr by (subst copy_before.simps) (simp add: push_def)
  next
    case False
    then have "takeWhile (\<lambda>x. send x \<le> s) (drop (p_i p) mp) = []"
      using "1.prems" by (cases "p_i p < length mp") (simp_all add: Cons_nth_drop_Suc [symmetric])
    then show ?thesis using False by (subst copy_before.simps) auto
  qed
qed

lemma segment_alt:
  "segment s e os mp p =
    (let m = mk s e os;
         p1 = (if iceberg s (p_newmap p)
               then p\<lparr>p_newmap := butlast (p_newmap p) @ seg2_left m (last (p_newmap p))
                                   @ [seg2_mid m (last (p_newmap p))]\<rparr>
               else p);
         m1 = (if iceberg s (p_newmap p) then seg2_right m (last (p_newmap p)) else m)
     in case segment_loop m1 mp p1 of
          (m2, p2) \<Rightarrow> if sstart m2 < send m2 then push m2 p2 else p2)"
  by (simp add: segment_def iceberg_def seg2_eq Let_def)

lemma insertrange_list:
  assumes "p_i p \<le> length mp"
    and "insert_list s e (neworigs sn s e (p_setindex p)) (p_newmap p) (drop (p_i p) mp) = (nm', rest')"
  shows "p_newmap (insertrange s e sn mp True p) = nm'
       \<and> drop (p_i (insertrange s e sn mp True p)) mp = rest'
       \<and> p_i (insertrange s e sn mp True p) \<le> length mp
       \<and> p_setindex (insertrange s e sn mp True p) = p_setindex p"
proof -
  let ?P = "\<lambda>x. send x \<le> s"
  let ?tw = "takeWhile ?P (drop (p_i p) mp)"
  let ?p1 = "p\<lparr>p_newmap := p_newmap p @ ?tw, p_i := p_i p + length ?tw\<rparr>"
  let ?m = "mk s e (neworigs sn s e (p_setindex p))"
  let ?nm1 = "p_newmap p @ ?tw"
  have cb: "copy_before s mp p = ?p1" using copy_before_list [OF assms(1)] .
  have i1: "p_i ?p1 \<le> length mp"
    using assms(1) length_takeWhile_le [of ?P "drop (p_i p) mp"] by simp
  have d1: "drop (p_i ?p1) mp = dropWhile ?P (drop (p_i p) mp)"
    by (simp add: dropWhile_eq_drop add.commute)
  define nm2 where "nm2 = (if iceberg s ?nm1
      then butlast ?nm1 @ seg2_left ?m (last ?nm1) @ [seg2_mid ?m (last ?nm1)] else ?nm1)"
  define m1 where "m1 = (if iceberg s ?nm1 then seg2_right ?m (last ?nm1) else ?m)"
  obtain pushed m2 rest2
    where mg: "merge_list m1 (dropWhile ?P (drop (p_i p) mp)) = (pushed, m2, rest2)"
    by (cases "merge_list m1 (dropWhile ?P (drop (p_i p) mp))") auto
  have il: "insert_list s e (neworigs sn s e (p_setindex p)) (p_newmap p) (drop (p_i p) mp)
      = (nm2 @ pushed @ (if sstart m2 < send m2 then [m2] else []), rest2)"
    using mg unfolding insert_list_def Let_def nm2_def [symmetric] m1_def [symmetric] by simp
  define p2 where "p2 = ?p1\<lparr>p_newmap := nm2\<rparr>"
  have p2i: "p_i p2 \<le> length mp" "drop (p_i p2) mp = dropWhile ?P (drop (p_i p) mp)"
    using i1 d1 by (simp_all add: p2_def)
  have sl: "segment_loop m1 mp p2
         = (m2, p2\<lparr>p_newmap := p_newmap p2 @ pushed, p_i := length mp - length rest2\<rparr>)
       \<and> rest2 = drop (length mp - length rest2) mp"
    using segment_loop_merge [OF p2i(1), of m1 pushed m2 rest2] mg p2i(2) by simp
  have e1: "(if iceberg s (p_newmap ?p1)
             then ?p1\<lparr>p_newmap := butlast (p_newmap ?p1) @ seg2_left ?m (last (p_newmap ?p1))
                                   @ [seg2_mid ?m (last (p_newmap ?p1))]\<rparr>
             else ?p1) = p2"
    by (simp add: p2_def nm2_def)
  have e2: "(if iceberg s (p_newmap ?p1) then seg2_right ?m (last (p_newmap ?p1)) else ?m) = m1"
    by (simp add: m1_def)
  have sg: "segment s e (neworigs sn s e (p_setindex p)) mp ?p1
      = (case segment_loop m1 mp p2 of
           (m2', p2') \<Rightarrow> if sstart m2' < send m2' then push m2' p2' else p2')"
    unfolding segment_alt Let_def by (simp only: e1 e2)
  have "insertrange s e sn mp True p
      = (let p3 = p2\<lparr>p_newmap := p_newmap p2 @ pushed, p_i := length mp - length rest2\<rparr>
         in if sstart m2 < send m2 then push m2 p3 else p3)"
    using sl sg cb by (simp add: insertrange_def Let_def)
  then show ?thesis using sl il assms(2)
    by (auto simp: Let_def push_def p2_def)
qed

lemma copied_remaining [simp]: "copied s rest @ remaining s rest = rest"
  by (simp add: copied_def remaining_def)

lemma copied_le: "x \<in> set (copied s rest) \<Longrightarrow> send x \<le> s"
  unfolding copied_def by (auto dest: set_takeWhileD)

lemma wasc_remaining: "wasc rest \<Longrightarrow> wasc (remaining s rest)"
  using copied_remaining [of s rest] by (metis wasc_append)

lemma remaining_gt:
  assumes "wasc rest" "r \<in> set (remaining s rest)"
  shows "s < send r"
proof -
  have w: "wasc (remaining s rest)"
    using assms(1) by (rule wasc_remaining)
  obtain h t where ht: "remaining s rest = h # t"
    using assms(2) by (cases "remaining s rest") auto
  have "\<not> send h \<le> s"
    using ht hd_dropWhile [of "\<lambda>x. send x \<le> s" rest] by (simp add: remaining_def)
  then have h: "s < send h" by simp
  show ?thesis
  proof (cases "r = h")
    case True then show ?thesis using h by simp
  next
    case False
    then have "r \<in> set t" using assms(2) ht by simp
    then have "send h \<le> sstart r" "sstart r \<le> send r"
      using w ht by (auto simp: wasc_Cons wasc_def)
    then show ?thesis using h by linarith
  qed
qed

lemma insert_list_ice:
  assumes "iceberg s (nm @ copied s rest)"
    and "merge_list (seg2_right (mk s e nw) (last (nm @ copied s rest))) (remaining s rest)
           = (pushed, m2, rest2)"
  shows "insert_list s e nw nm rest
       = (butlast (nm @ copied s rest) @ seg2_left (mk s e nw) (last (nm @ copied s rest))
          @ [seg2_mid (mk s e nw) (last (nm @ copied s rest))] @ pushed
          @ (if sstart m2 < send m2 then [m2] else []), rest2)"
  using assms unfolding insert_list_def Let_def copied_def remaining_def by simp

lemma insert_list_noice:
  assumes "\<not> iceberg s (nm @ copied s rest)"
    and "merge_list (mk s e nw) (remaining s rest) = (pushed, m2, rest2)"
  shows "insert_list s e nw nm rest
       = (nm @ copied s rest @ pushed @ (if sstart m2 < send m2 then [m2] else []), rest2)"
  using assms unfolding insert_list_def Let_def copied_def remaining_def by simp

lemma wasc_drop_mid: "wasc (xs @ m # ys) \<Longrightarrow> wasc (xs @ (if c then [m] else []) @ ys)"
  by (auto simp: wasc_append wasc_Cons)

lemma between_copy:
  assumes "between lo nm rest" "lo \<le> s"
  shows "wasc ((nm @ copied s rest) @ remaining s rest)"
    and "\<forall>x \<in> set (nm @ copied s rest). sstart x \<le> s"
    and "\<forall>r \<in> set (remaining s rest). s < send r"
    and "wasc (remaining s rest)"
proof -
  have w: "wasc (nm @ rest)" using assms(1) by (simp add: between_def)
  then show 1: "wasc ((nm @ copied s rest) @ remaining s rest)" by simp
  have wr: "wasc rest" using w by (simp add: wasc_append)
  show "\<forall>x \<in> set (nm @ copied s rest). sstart x \<le> s"
  proof
    fix x assume "x \<in> set (nm @ copied s rest)"
    then consider "x \<in> set nm" | "x \<in> set (copied s rest)" by auto
    then show "sstart x \<le> s"
    proof cases
      case 1 then show ?thesis using assms by (auto simp: between_def)
    next
      case 2
      then have "send x \<le> s" by (rule copied_le)
      moreover have "x \<in> set rest" using 2 by (auto simp: copied_def dest: set_takeWhileD)
      then have "sstart x \<le> send x" using wr by (simp add: wasc_def)
      ultimately show ?thesis by linarith
    qed
  qed
  show "\<forall>r \<in> set (remaining s rest). s < send r" using remaining_gt [OF wr] by blast
  show "wasc (remaining s rest)" using wr by (rule wasc_remaining)
qed


section \<open>What one insertion preserves\<close>

lemma insert_list_alt:
  "insert_list s e nw nm rest =
    (case merge_list (ins_m1 s e nw nm rest) (remaining s rest) of
       (pushed, m2, rest2) \<Rightarrow>
         (ins_pre s e nw nm rest @ pushed @ (if sstart m2 < send m2 then [m2] else []), rest2))"
  unfolding insert_list_def Let_def ins_pre_def ins_m1_def copied_def remaining_def by simp

lemma wasc_last:
  assumes "wasc xs" "x \<in> set xs"
  shows "send x \<le> send (last xs)"
proof -
  have ne: "xs \<noteq> []" using assms(2) by auto
  then have xs: "xs = butlast xs @ [last xs]" by simp
  have w: "wasc (butlast xs @ [last xs])" using assms(1) xs by simp
  show ?thesis
  proof (cases "x = last xs")
    case True then show ?thesis by simp
  next
    case False
    then have "x \<in> set (butlast xs)" using assms(2) xs
      by (metis Un_iff empty_iff empty_set set_ConsD set_append)
    then have "send x \<le> sstart (last xs)" using w by (simp add: wasc_append)
    moreover have "sstart (last xs) \<le> send (last xs)" using w by (simp add: wasc_append wasc_Cons)
    ultimately show ?thesis by linarith
  qed
qed

text \<open>The geometry of the iceberg case.\<close>

lemma iceberg_facts:
  assumes "between lo nm rest" "lo \<le> s" "iceberg s (nm @ copied s rest)"
  defines "ic \<equiv> last (nm @ copied s rest)" and "b \<equiv> butlast (nm @ copied s rest)"
  shows "nm @ copied s rest = b @ [ic]"
    and "sstart ic \<le> s" "s < send ic" "sstart ic \<le> send ic"
    and "wasc b" "\<forall>x \<in> set b. send x \<le> sstart ic \<and> sstart x \<le> s"
    and "\<forall>r \<in> set (remaining s rest). send ic \<le> sstart r"
    and "\<forall>x \<in> set b. \<forall>r \<in> set (remaining s rest). send x \<le> sstart r"
    and "ic \<in> set nm"
proof -
  let ?nm1 = "nm @ copied s rest"
  have ne: "?nm1 \<noteq> []" and lt: "s < send ic" using assms(3) by (auto simp: iceberg_def ic_def)
  show eq: "?nm1 = b @ [ic]" using ne by (simp add: b_def ic_def del: butlast_append last_append)
  show "s < send ic" using lt .
  have w: "wasc ((b @ [ic]) @ remaining s rest)"
    using between_copy(1) [OF assms(1,2)] eq by simp
  have st: "\<forall>x \<in> set (b @ [ic]). sstart x \<le> s"
    using between_copy(2) [OF assms(1,2)] eq by simp
  show "sstart ic \<le> s" using st by simp
  show "sstart ic \<le> send ic" using w by (auto simp: wasc_append wasc_Cons)
  show "wasc b" using w by (auto simp: wasc_append)
  show "\<forall>x \<in> set b. send x \<le> sstart ic \<and> sstart x \<le> s"
    using w st by (auto simp: wasc_append wasc_Cons)
  show "\<forall>r \<in> set (remaining s rest). send ic \<le> sstart r"
    using w by (auto simp: wasc_append wasc_Cons)
  show "\<forall>x \<in> set b. \<forall>r \<in> set (remaining s rest). send x \<le> sstart r"
    using w by (auto simp: wasc_append wasc_Cons)
  have "ic \<in> set ?nm1" using eq by (metis in_set_conv_decomp)
  moreover have "ic \<notin> set (copied s rest)" using lt copied_le [of ic s rest] by auto
  ultimately show "ic \<in> set nm" by simp
qed

lemma noiceberg_facts:
  assumes "between lo nm rest" "lo \<le> s" "\<not> iceberg s (nm @ copied s rest)"
  shows "wasc (nm @ copied s rest)"
    and "\<forall>x \<in> set (nm @ copied s rest). send x \<le> s \<and> sstart x \<le> s"
    and "\<forall>x \<in> set (nm @ copied s rest). \<forall>r \<in> set (remaining s rest). send x \<le> sstart r"
proof -
  let ?nm1 = "nm @ copied s rest"
  have w: "wasc (?nm1 @ remaining s rest)" using between_copy(1) [OF assms(1,2)] .
  then show w1: "wasc ?nm1" using wasc_append by blast
  have st: "\<forall>x \<in> set ?nm1. sstart x \<le> s" using between_copy(2) [OF assms(1,2)] .
  have "send x \<le> s" if "x \<in> set ?nm1" for x
  proof -
    have "?nm1 \<noteq> []" using that by auto
    then have "send (last ?nm1) \<le> s" using assms(3) by (auto simp: iceberg_def)
    then show ?thesis using wasc_last [OF w1 that] by linarith
  qed
  then show "\<forall>x \<in> set ?nm1. send x \<le> s \<and> sstart x \<le> s" using st by blast
  show "\<forall>x \<in> set ?nm1. \<forall>r \<in> set (remaining s rest). send x \<le> sstart r"
    using w wasc_append by blast
qed

lemma ins_pre_facts:
  assumes "between lo nm rest" "lo \<le> s" "s \<le> e"
  shows "wasc (ins_pre s e nw nm rest)"
    and "\<forall>x \<in> set (ins_pre s e nw nm rest).
           sstart x \<le> s \<and> send x \<le> sstart (ins_m1 s e nw nm rest)
           \<and> (\<forall>r \<in> set (remaining s rest). send x \<le> sstart r)"
proof -
  let ?nm1 = "nm @ copied s rest"
  have rr: "\<forall>r \<in> set (remaining s rest). s < send r"
    using between_copy(3) [OF assms(1,2)] .
  show "wasc (ins_pre s e nw nm rest)"
  proof (cases "iceberg s ?nm1")
    case True
    note f = iceberg_facts [OF assms(1,2) True]
    show ?thesis using True f(2-6) assms(3)
      by (auto simp: ins_pre_def wasc_append wasc_Cons in_seg2_left min_def max_def)
  next
    case False
    then show ?thesis using noiceberg_facts(1) [OF assms(1,2) False] by (simp add: ins_pre_def)
  qed
  show "\<forall>x \<in> set (ins_pre s e nw nm rest).
           sstart x \<le> s \<and> send x \<le> sstart (ins_m1 s e nw nm rest)
           \<and> (\<forall>r \<in> set (remaining s rest). send x \<le> sstart r)"
  proof (cases "iceberg s ?nm1")
    case True
    note f = iceberg_facts [OF assms(1,2) True]
    have "\<forall>r \<in> set (remaining s rest). min e (send (last ?nm1)) \<le> sstart r"
      using f(7) by (auto simp: min_def)
    moreover have "\<forall>r \<in> set (remaining s rest). s \<le> sstart r"
    proof
      fix r assume "r \<in> set (remaining s rest)"
      then have "send (last ?nm1) \<le> sstart r" using f(7) by blast
      then show "s \<le> sstart r" using f(3) by linarith
    qed
    ultimately show ?thesis using True f(2-8) assms(3)
      by (auto simp: ins_pre_def ins_m1_def in_seg2_left min_def max_def)
  next
    case False
    then show ?thesis using noiceberg_facts(2,3) [OF assms(1,2) False]
      by (auto simp: ins_pre_def ins_m1_def)
  qed
qed

lemma ins_m1_facts:
  assumes "between lo nm rest" "lo \<le> s" "s \<le> e"
  shows "sstart (ins_m1 s e nw nm rest) \<le> send (ins_m1 s e nw nm rest)"
    and "sstart (ins_m1 s e nw nm rest) \<le> e"
    and "\<forall>r \<in> set (remaining s rest). sstart (ins_m1 s e nw nm rest) \<le> send r"
    and "send (ins_m1 s e nw nm rest) \<le> e
         \<or> (\<forall>r \<in> set (remaining s rest). send (ins_m1 s e nw nm rest) \<le> sstart r)"
proof -
  let ?nm1 = "nm @ copied s rest"
  have rr: "\<forall>r \<in> set (remaining s rest). s < send r"
    using between_copy(3) [OF assms(1,2)] .
  have wr: "\<forall>r \<in> set (remaining s rest). sstart r \<le> send r"
    using between_copy(4) [OF assms(1,2)] by (simp add: wasc_def)
  show "sstart (ins_m1 s e nw nm rest) \<le> send (ins_m1 s e nw nm rest)"
    using assms(3) by (auto simp: ins_m1_def min_def max_def)
  show "sstart (ins_m1 s e nw nm rest) \<le> e"
    using assms(3) by (simp add: ins_m1_def)
  show "\<forall>r \<in> set (remaining s rest). sstart (ins_m1 s e nw nm rest) \<le> send r"
  proof (cases "iceberg s ?nm1")
    case True
    note f = iceberg_facts [OF assms(1,2) True]
    show ?thesis
    proof
      fix r assume r: "r \<in> set (remaining s rest)"
      then have "send (last ?nm1) \<le> sstart r" "sstart r \<le> send r" using f(7) wr by auto
      then show "sstart (ins_m1 s e nw nm rest) \<le> send r" using True
        by (simp add: ins_m1_def min_def)
    qed
  next
    case False
    then show ?thesis using rr by (auto simp: ins_m1_def)
  qed
  show "send (ins_m1 s e nw nm rest) \<le> e
         \<or> (\<forall>r \<in> set (remaining s rest). send (ins_m1 s e nw nm rest) \<le> sstart r)"
  proof (cases "iceberg s ?nm1")
    case True
    note f = iceberg_facts [OF assms(1,2) True]
    show ?thesis using True f(7) by (auto simp: ins_m1_def max_def)
  next
    case False
    then show ?thesis by (simp add: ins_m1_def)
  qed
qed

lemma insert_list_between:
  assumes "between lo nm rest" "lo \<le> s" "s \<le> e" "insert_list s e nw nm rest = (nm', rest')"
  shows "between e nm' rest'"
proof -
  let ?pre = "ins_pre s e nw nm rest" and ?m1 = "ins_m1 s e nw nm rest"
  obtain pushed m2 where mg: "merge_list ?m1 (remaining s rest) = (pushed, m2, rest')"
    and nm': "nm' = ?pre @ pushed @ (if sstart m2 < send m2 then [m2] else [])"
    using assms(4) unfolding insert_list_alt by (auto split: prod.splits)
  note pf = ins_pre_facts [OF assms(1-3), of nw]
  note mf = ins_m1_facts [OF assms(1-3), of nw]
  have wrem: "wasc (remaining s rest)" using between_copy(4) [OF assms(1,2)] .
  have w1: "wasc (pushed @ m2 # rest')"
    using merge_list_wasc [OF mg wrem mf(1) mf(3)] .
  have up: "\<forall>y \<in> set (pushed @ [m2]). sstart y \<le> e"
    using merge_list_upper [OF mg wrem mf(2) mf(4)] .
  have sub: "set rest' \<subseteq> set (remaining s rest)" using merge_list_subset [OF mg] .
  have cross: "send x \<le> sstart y" if "x \<in> set ?pre" "y \<in> set (pushed @ [m2])" for x y
  proof -
    have x1: "send x \<le> sstart ?m1" and x2: "\<forall>r \<in> set (remaining s rest). send x \<le> sstart r"
      using pf(2) that(1) by auto
    have x3: "send x \<le> send ?m1" using x1 mf(1) by linarith
    have x4: "\<forall>r \<in> set (remaining s rest). send x \<le> sstart r \<and> send x \<le> send r"
      using x2 wrem by (auto simp: wasc_def intro: order_trans)
    show ?thesis using merge_list_lower [OF mg x1 x3 x4] that(2) by blast
  qed
  have cross2: "send x \<le> sstart r" if "x \<in> set ?pre" "r \<in> set rest'" for x r
    using pf(2) that sub by blast
  have "wasc (?pre @ pushed @ m2 # rest')"
    using pf(1) w1 cross cross2 by (auto simp: wasc_append wasc_Cons)
  then have "wasc ((?pre @ pushed) @ (if sstart m2 < send m2 then [m2] else []) @ rest')"
    using wasc_drop_mid [of "?pre @ pushed" m2 rest'] by simp
  then have w: "wasc (nm' @ rest')" using nm' by simp
  have "\<forall>x \<in> set nm'. sstart x \<le> e"
    using nm' up pf(2) assms(3) by (auto split: if_splits)
  then show ?thesis using w by (simp add: between_def)
qed

lemma insert_list_split:
  assumes "insert_list s e nw nm rest = (nm', rest')"
  obtains pushed m2 where
    "merge_list (ins_m1 s e nw nm rest) (remaining s rest) = (pushed, m2, rest')"
    "nm' = ins_pre s e nw nm rest @ pushed @ (if sstart m2 < send m2 then [m2] else [])"
  using assms unfolding insert_list_alt by (auto split: prod.splits)

lemma covered_rest: "covered rest = covered (copied s rest) \<union> covered (remaining s rest)"
  by (metis copied_remaining covered_append)

lemma ins_cover:
  assumes "between lo nm rest" "lo \<le> s" "s \<le> e"
  shows "covered (ins_pre s e nw nm rest)
         \<union> {sstart (ins_m1 s e nw nm rest) ..< send (ins_m1 s e nw nm rest)}
         \<union> covered (remaining s rest)
       = covered (nm @ rest) \<union> {s ..< e}"
proof (cases "iceberg s (nm @ copied s rest)")
  case False
  then show ?thesis
    by (auto simp: ins_pre_def ins_m1_def covered_rest [of rest s])
next
  case True
  let ?ic = "last (nm @ copied s rest)" and ?b = "butlast (nm @ copied s rest)"
  note f = iceberg_facts [OF assms(1,2) True]
  have "covered nm \<union> covered (copied s rest) = covered ?b \<union> {sstart ?ic ..< send ?ic}"
    using f(1) by (metis covered_append covered_Cons covered_Nil Un_empty_right)
  then have 1: "covered (nm @ rest) = covered ?b \<union> {sstart ?ic ..< send ?ic} \<union> covered (remaining s rest)"
    using covered_rest [of rest s] by (simp only: covered_append) blast
  have 2: "{min s (sstart ?ic) ..< max s (sstart ?ic)} \<union> {max s (sstart ?ic) ..< min e (send ?ic)}
        \<union> {min e (send ?ic) ..< max e (send ?ic)} = {s ..< e} \<union> {sstart ?ic ..< send ?ic}"
    using f(2,3) assms(3) by (auto simp: min_def max_def)
  have "covered (ins_pre s e nw nm rest)
         \<union> {sstart (ins_m1 s e nw nm rest) ..< send (ins_m1 s e nw nm rest)}
      = covered ?b \<union> ({min s (sstart ?ic) ..< max s (sstart ?ic)}
          \<union> {max s (sstart ?ic) ..< min e (send ?ic)}
          \<union> {min e (send ?ic) ..< max e (send ?ic)})"
    using True by (simp add: ins_pre_def ins_m1_def Un_assoc)
  then show ?thesis unfolding 1 2 by auto
qed

lemma insert_list_covered:
  assumes "between lo nm rest" "lo \<le> s" "s \<le> e" "insert_list s e nw nm rest = (nm', rest')"
  shows "covered (nm' @ rest') = covered (nm @ rest) \<union> {s ..< e}"
proof -
  let ?pre = "ins_pre s e nw nm rest" and ?m1 = "ins_m1 s e nw nm rest"
  obtain pushed m2 where mg: "merge_list ?m1 (remaining s rest) = (pushed, m2, rest')"
    and nm': "nm' = ?pre @ pushed @ (if sstart m2 < send m2 then [m2] else [])"
    using insert_list_split [OF assms(4)] by blast
  note mf = ins_m1_facts [OF assms(1-3), of nw]
  have wrem: "wasc (remaining s rest)" using between_copy(4) [OF assms(1,2)] .
  have "covered (nm' @ rest') = covered ?pre \<union> covered (pushed @ m2 # rest')"
    using nm' by auto
  also have "\<dots> = covered ?pre \<union> ({sstart ?m1 ..< send ?m1} \<union> covered (remaining s rest))"
    using merge_list_covered [OF mg wrem mf(1) mf(3)] by simp
  also have "\<dots> = covered (nm @ rest) \<union> {s ..< e}"
    using ins_cover [OF assms(1-3), of nw] by (simp add: Un_assoc)
  finally show ?thesis .
qed

lemma insert_list_strict:
  assumes "between lo nm rest" "lo \<le> s" "s < e" "insert_list s e nw nm rest = (nm', rest')"
    and "\<forall>x \<in> set (nm @ rest). sstart x < send x"
  shows "\<forall>x \<in> set (nm' @ rest'). sstart x < send x"
proof -
  let ?pre = "ins_pre s e nw nm rest" and ?m1 = "ins_m1 s e nw nm rest"
  let ?nm1 = "nm @ copied s rest"
  have se: "s \<le> e" using assms(3) by simp
  obtain pushed m2 where mg: "merge_list ?m1 (remaining s rest) = (pushed, m2, rest')"
    and nm': "nm' = ?pre @ pushed @ (if sstart m2 < send m2 then [m2] else [])"
    using insert_list_split [OF assms(4)] by blast
  have wrem: "wasc (remaining s rest)" using between_copy(4) [OF assms(1,2)] .
  have rgt: "\<forall>r \<in> set (remaining s rest). s < send r" using between_copy(3) [OF assms(1,2)] .
  have all: "set ?nm1 \<union> set (remaining s rest) = set (nm @ rest)"
    by (metis append.assoc copied_remaining set_append)
  have srem: "\<forall>r \<in> set (remaining s rest). sstart r < send r" using assms(5) all by blast
  have snm1: "\<forall>x \<in> set ?nm1. sstart x < send x" using assms(5) all by blast
  have pre: "\<forall>x \<in> set ?pre. sstart x < send x"
  proof (cases "iceberg s ?nm1")
    case False then show ?thesis using snm1 by (simp add: ins_pre_def)
  next
    case True
    note f = iceberg_facts [OF assms(1,2) True]
    have "set (butlast ?nm1) \<subseteq> set ?nm1" by (metis in_set_butlastD subsetI)
    then have "\<forall>x \<in> set (butlast ?nm1). sstart x < send x" using snm1 by blast
    then show ?thesis using True f(2,3) assms(3)
      by (auto simp: ins_pre_def in_seg2_left min_def max_def)
  qed
  have a1: "\<forall>r \<in> set (remaining s rest). sstart ?m1 < send r"
  proof (cases "iceberg s ?nm1")
    case False then show ?thesis using rgt by (simp add: ins_m1_def)
  next
    case True
    note f = iceberg_facts [OF assms(1,2) True]
    show ?thesis
    proof
      fix r assume r: "r \<in> set (remaining s rest)"
      then have "send (last ?nm1) \<le> sstart r" "sstart r < send r" using f(7) srem by auto
      then show "sstart ?m1 < send r" using True by (simp add: ins_m1_def min_def)
    qed
  qed
  have a2: "sstart ?m1 < send ?m1 \<or> (\<forall>r \<in> set (remaining s rest). send ?m1 \<le> sstart r)"
  proof (cases "iceberg s ?nm1")
    case False then show ?thesis using assms(3) by (simp add: ins_m1_def)
  next
    case True
    note f = iceberg_facts [OF assms(1,2) True]
    show ?thesis using True f(7) by (auto simp: ins_m1_def min_def max_def)
  qed
  have pu: "\<forall>y \<in> set pushed. sstart y < send y"
    using merge_list_strict [OF mg wrem srem a1 a2] .
  have sub: "set rest' \<subseteq> set (remaining s rest)" using merge_list_subset [OF mg] .
  show ?thesis using nm' pre pu sub srem by (auto split: if_splits)
qed



section \<open>What \<open>addmatches\<close> and \<open>addrange\<close> preserve\<close>

lemma insertrange_cursor:
  assumes "cursor lo mp p" "lo \<le> s" "s \<le> e"
  shows "cursor e mp (insertrange s e sn mp True p)"
    and "p_setindex (insertrange s e sn mp True p) = p_setindex p"
    and "covered (addendranges mp (insertrange s e sn mp True p))
         = covered (addendranges mp p) \<union> {s ..< e}"
proof -
  let ?nw = "neworigs sn s e (p_setindex p)"
  obtain nm' rest' where il: "insert_list s e ?nw (p_newmap p) (drop (p_i p) mp) = (nm', rest')"
    by (cases "insert_list s e ?nw (p_newmap p) (drop (p_i p) mp)") auto
  have pi: "p_i p \<le> length mp" and bt: "between lo (p_newmap p) (drop (p_i p) mp)"
    using assms(1) by (simp_all add: cursor_def)
  note r = insertrange_list [OF pi il]
  show "cursor e mp (insertrange s e sn mp True p)"
    using r insert_list_between [OF bt assms(2,3) il] by (simp add: cursor_def)
  show "p_setindex (insertrange s e sn mp True p) = p_setindex p" using r by simp
  show "covered (addendranges mp (insertrange s e sn mp True p))
         = covered (addendranges mp p) \<union> {s ..< e}"
    using r insert_list_covered [OF bt assms(2,3) il] by (simp add: addendranges_def)
qed

lemma insertrange_strict:
  assumes "cursor lo mp p" "lo \<le> s" "s < e"
    and "\<forall>x \<in> set (addendranges mp p). sstart x < send x"
  shows "\<forall>x \<in> set (addendranges mp (insertrange s e sn mp True p)). sstart x < send x"
proof -
  let ?nw = "neworigs sn s e (p_setindex p)"
  obtain nm' rest' where il: "insert_list s e ?nw (p_newmap p) (drop (p_i p) mp) = (nm', rest')"
    by (cases "insert_list s e ?nw (p_newmap p) (drop (p_i p) mp)") auto
  have pi: "p_i p \<le> length mp" and bt: "between lo (p_newmap p) (drop (p_i p) mp)"
    using assms(1) by (simp_all add: cursor_def)
  note r = insertrange_list [OF pi il]
  have "\<forall>x \<in> set (p_newmap p @ drop (p_i p) mp). sstart x < send x"
    using assms(4) by (simp add: addendranges_def)
  then have "\<forall>x \<in> set (nm' @ rest'). sstart x < send x"
    using insert_list_strict [OF bt assms(2,3) il] by blast
  then show ?thesis using r by (simp add: addendranges_def)
qed


lemma addmatches_loop_cursor:
  assumes "cursor lo mp p" "ordered_from lo ms"
  shows "(\<exists>lo'. cursor lo' mp (addmatches_loop ms sn mp True p))
       \<and> covered (addendranges mp (addmatches_loop ms sn mp True p))
         = covered (addendranges mp p) \<union> matched ms"
  using assms
proof (induction ms arbitrary: lo p)
  case Nil
  then show ?case by auto
next
  case (Cons a ms)
  obtain ix len where a: "a = (ix, len)" by (cases a)
  let ?p1 = "insertrange (int ix) (int ix + int len) sn mp True p"
  let ?p2 = "?p1\<lparr>p_setindex := p_setindex ?p1 + 1\<rparr>"
  have lo: "lo \<le> int ix" and om: "ordered_from (int ix + int len) ms"
    using Cons.prems(2) a by simp_all
  have le: "int ix \<le> int ix + int len" by simp
  have c1: "cursor (int ix + int len) mp ?p2"
    using insertrange_cursor(1) [OF Cons.prems(1) lo le, of sn] by (simp add: cursor_def)
  have cv: "covered (addendranges mp ?p2)
      = covered (addendranges mp p) \<union> {int ix ..< int ix + int len}"
    using insertrange_cursor(3) [OF Cons.prems(1) lo le, of sn] by (simp add: addendranges_def)
  show ?case using Cons.IH [OF c1 om] cv a by (auto simp: Let_def)
qed


lemma addmatches_loop_strict:
  assumes "cursor lo mp p" "ordered_from lo ms" "nonempty_matches ms"
    and "\<forall>x \<in> set (addendranges mp p). sstart x < send x"
  shows "\<forall>x \<in> set (addendranges mp (addmatches_loop ms sn mp True p)). sstart x < send x"
  using assms
proof (induction ms arbitrary: lo p)
  case Nil
  then show ?case by simp
next
  case (Cons a ms)
  obtain ix len where a: "a = (ix, len)" by (cases a)
  let ?p1 = "insertrange (int ix) (int ix + int len) sn mp True p"
  let ?p2 = "?p1\<lparr>p_setindex := p_setindex ?p1 + 1\<rparr>"
  have lo: "lo \<le> int ix" and om: "ordered_from (int ix + int len) ms"
    using Cons.prems(2) a by simp_all
  have lt: "int ix < int ix + int len" and nm: "nonempty_matches ms"
    using Cons.prems(3) a by simp_all
  have le: "int ix \<le> int ix + int len" by simp
  have c1: "cursor (int ix + int len) mp ?p2"
    using insertrange_cursor(1) [OF Cons.prems(1) lo le, of sn] by (simp add: cursor_def)
  have "\<forall>x \<in> set (addendranges mp ?p1). sstart x < send x"
    using insertrange_strict [OF Cons.prems(1) lo lt Cons.prems(4)] .
  then have s1: "\<forall>x \<in> set (addendranges mp ?p2). sstart x < send x"
    by (simp add: addendranges_def)
  show ?case using Cons.IH [OF c1 om nm s1] a by (simp add: Let_def)
qed

lemma cursor_p0: "wasc mp \<Longrightarrow> cursor lo mp p0"
  by (simp add: cursor_def between_def p0_def)

lemma cursor_wasc: "cursor lo mp p \<Longrightarrow> wasc (addendranges mp p)"
  by (simp add: cursor_def between_def addendranges_def)



lemma ascending_wasc: "ascending mp \<longleftrightarrow> wasc mp \<and> (\<forall>x \<in> set mp. sstart x < send x)"
  by (auto simp: ascending_def wasc_def)

text \<open>What \<open>addmatches\<close> and \<open>addrange\<close> preserve in Segment mode.\<close>

lemma addmatches_wasc:
  assumes "wasc mp" "ordered_from 0 (matchAll re text)"
  shows "wasc (addmatches text re sn True mp)"
proof (cases "global re")
  case False then show ?thesis using assms(1) by (simp add: addmatches_def)
next
  case True
  obtain lo' where "cursor lo' mp (addmatches_loop (matchAll re text) sn mp True p0)"
    using addmatches_loop_cursor [OF cursor_p0 [OF assms(1)] assms(2)] by blast
  then show ?thesis using True cursor_wasc by (simp add: addmatches_def)
qed

lemma addmatches_covered:
  assumes "wasc mp" "ordered_from 0 (matchAll re text)"
  shows "covered (addmatches text re sn True mp)
       = covered mp \<union> (if global re then matched (matchAll re text) else {})"
  using addmatches_loop_cursor [OF cursor_p0 [OF assms(1)] assms(2), of sn]
  by (simp add: addmatches_def addendranges_def p0_def)

lemma addmatches_ascending:
  assumes "ascending mp" "ordered_from 0 (matchAll re text)" "nonempty_matches (matchAll re text)"
  shows "ascending (addmatches text re sn True mp)"
proof (cases "global re")
  case False then show ?thesis using assms(1) by (simp add: addmatches_def)
next
  case True
  have w: "wasc mp" and st: "\<forall>x \<in> set (addendranges mp p0). sstart x < send x"
    using assms(1) by (simp_all add: ascending_wasc addendranges_def p0_def)
  have "\<forall>x \<in> set (addmatches text re sn True mp). sstart x < send x"
    using addmatches_loop_strict [OF cursor_p0 [OF w] assms(2,3) st] True
    by (simp add: addmatches_def)
  then show ?thesis using addmatches_wasc [OF w assms(2)] by (simp add: ascending_wasc)
qed


lemma addrange_normal:
  "addrange text r sn True mp
     = addendranges mp (insertrange (start (normal r)) (endp (normal r)) sn mp True p0)"
  by (simp add: addrange_def normal_def Let_def)

lemma normal_le: "start (normal r) \<le> endp (normal r)"
  by (simp add: normal_def)

lemma addrange_wasc:
  assumes "wasc mp"
  shows "wasc (addrange text r sn True mp)"
  using insertrange_cursor(1) [OF cursor_p0 [OF assms, of "start (normal r)"] order_refl normal_le [of r], of sn]
    cursor_wasc by (simp add: addrange_normal)

lemma addrange_covered:
  assumes "wasc mp"
  shows "covered (addrange text r sn True mp)
       = covered mp \<union> {min (start r) (endp r) ..< max (start r) (endp r)}"
proof -
  have "{start (normal r) ..< endp (normal r)} = {min (start r) (endp r) ..< max (start r) (endp r)}"
    by (simp add: normal_def min_def max_def)
  then show ?thesis
    using insertrange_cursor(3) [OF cursor_p0 [OF assms, of "start (normal r)"] order_refl normal_le [of r], of sn]
    by (simp add: addrange_normal addendranges_def p0_def)
qed

lemma addrange_ascending:
  assumes "ascending mp" "start r \<noteq> endp r"
  shows "ascending (addrange text r sn True mp)"
proof -
  have w: "wasc mp" and st: "\<forall>x \<in> set (addendranges mp p0). sstart x < send x"
    using assms(1) by (simp_all add: ascending_wasc addendranges_def p0_def)
  have lt: "start (normal r) < endp (normal r)" using assms(2) by (simp add: normal_def)
  have "\<forall>x \<in> set (addrange text r sn True mp). sstart x < send x"
    using insertrange_strict [OF cursor_p0 [OF w, of "start (normal r)"] order_refl lt st, of sn]
    by (simp add: addrange_normal)
  then show ?thesis using addrange_wasc [OF w] by (simp add: ascending_wasc)
qed



section \<open>Sequences of insertions\<close>

text \<open>
  Any sequence of admissible Segment-mode insertions keeps the segments in order, none
  reaching into the next, and the map covers exactly what was inserted. When no inserted
  range and no match is empty, every segment is non-empty as well and the map satisfies
  the invariant \<open>ascending\<close>: the partition invariant of claim C1 holds for every
  sequence of insertions without an empty range or match.
\<close>

lemma insertions_wasc:
  assumes "wasc mp" "\<forall>i \<in> set ins. admissible text i"
  shows "wasc (foldl (apply_insertion text) mp ins)
       \<and> covered (foldl (apply_insertion text) mp ins) = covered mp \<union> (\<Union>i \<in> set ins. inserted text i)"
  using assms
proof (induction ins arbitrary: mp)
  case Nil
  then show ?case by simp
next
  case (Cons i ins)
  have w: "wasc (apply_insertion text mp i)"
    using Cons.prems by (cases i) (simp_all add: addmatches_wasc addrange_wasc)
  have c: "covered (apply_insertion text mp i) = covered mp \<union> inserted text i"
    using Cons.prems by (cases i) (simp_all add: addmatches_covered addrange_covered)
  have "\<forall>i \<in> set ins. admissible text i" using Cons.prems(2) by simp
  from Cons.IH [OF w this] show ?case by (simp add: c Un_assoc)
qed

lemma insertions_ascending:
  assumes "ascending mp" "\<forall>i \<in> set ins. admissible text i \<and> nonempty text i"
  shows "ascending (foldl (apply_insertion text) mp ins)"
  using assms
proof (induction ins arbitrary: mp)
  case Nil
  then show ?case by simp
next
  case (Cons i ins)
  have w: "ascending (apply_insertion text mp i)"
    using Cons.prems by (cases i) (simp_all add: addmatches_ascending addrange_ascending)
  have "\<forall>i \<in> set ins. admissible text i \<and> nonempty text i" using Cons.prems(2) by simp
  from Cons.IH [OF w this] show ?case by simp
qed

section \<open>The order of the tags of a segment\<close>

text \<open>
  \<open>_layersstart\<close> opens the layers of a segment from the first that differs from the
  previous segment on, in the order of \<open>origs\<close>: an earlier origin is the outer tag.
  \<open>_layersend\<close> closes them in the reverse order.
\<close>

lemma attrs_loop_prefix:
  "attrs_loop sn pidx off ats t st = (t', st') \<Longrightarrow> prefix t t'"
proof (induction ats arbitrary: t st)
  case Nil
  then show ?case by simp
next
  case (Cons av ats)
  obtain a v where av: "av = (a, v)" by (cases av)
  from Cons.prems obtain t3 st2 where r: "attrs_loop sn pidx off ats t3 st2 = (t', st')"
    and p: "prefix t t3"
    by (simp add: av Let_def)
  from Cons.IH [OF r] p show ?case by (rule_tac prefix_order.trans)
qed

lemma tagstart_shape:
  assumes "tagstart ft op defs cb sr layer mi j pidx off st = Some (t, st')"
  shows "\<exists>tg. tag op defs layer False = Some tg \<and> prefix (''<'' @ tg) t"
proof -
  from assms obtain tg ats t0 where tg: "tag op defs layer False = Some tg"
    and a: "attrs_loop (setname layer) pidx off ats (''<'' @ tg) st = (t0, st')" and t: "t = t0 @ ''>''"
    by (auto simp: tagstart_def Let_def split: bind_splits prod.splits)
  from attrs_loop_prefix [OF a] have "prefix (''<'' @ tg) t" using t by (metis prefix_prefix)
  then show ?thesis using tg by blast
qed

lemma layersstart_loop_order:
  assumes "layersstart_loop ft op defs cb sr mi pidx ls j tags st = Some (r, st')"
  shows "\<exists>ts. r = tags @ concat ts \<and> list_all2 (opens op defs) ls ts"
  using assms
proof (induction ls arbitrary: j tags st)
  case Nil
  then show ?case by simp
next
  case (Cons layer ls)
  from Cons.prems obtain t st1 where
    t: "tagstart ft op defs cb sr layer mi j pidx (length tags) st = Some (t, st1)"
    and r: "layersstart_loop ft op defs cb sr mi pidx ls (j + 1) (tags @ t) st1 = Some (r, st')"
    by (auto split: bind_splits)
  from Cons.IH [OF r] obtain ts where ts: "r = (tags @ t) @ concat ts" "list_all2 (opens op defs) ls ts"
    by blast
  have "opens op defs layer t" using tagstart_shape [OF t] by (auto simp: opens_def)
  then have "r = tags @ concat (t # ts) \<and> list_all2 (opens op defs) (layer # ls) (t # ts)"
    using ts by simp
  then show ?case by blast
qed

lemma layersend_loop_order:
  assumes "layersend_loop op defs ls t = Some r"
  shows "\<exists>ts. r = t @ concat ts \<and> list_all2 (\<lambda>l te. tagend op defs l = Some te) ls ts"
  using assms
proof (induction ls arbitrary: t)
  case Nil
  then show ?case by simp
next
  case (Cons layer ls)
  from Cons.prems obtain te where
    te: "tagend op defs layer = Some te" and r: "layersend_loop op defs ls (t @ te) = Some r"
    by (auto split: bind_splits)
  from Cons.IH [OF r] obtain ts where
    ts: "r = (t @ te) @ concat ts" "list_all2 (\<lambda>l te. tagend op defs l = Some te) ls ts"
    by blast
  then have "r = t @ concat (te # ts)
      \<and> list_all2 (\<lambda>l te. tagend op defs l = Some te) (layer # ls) (te # ts)"
    using te by simp
  then show ?case by blast
qed

lemma layersstart_order:
  assumes "layersstart ft op defs cb prev sg mi pidx st = Some (r, st')"
  shows "\<exists>ts. r = concat ts \<and> list_all2 (opens op defs) (drop (difdepth sg prev) (origs sg)) ts"
  using layersstart_loop_order [of ft op defs cb "seg_range sg" mi pidx _ _ "[]" st r st'] assms
  by (simp add: layersstart_def Let_def)

lemma layersend_order:
  assumes "layersend op defs sg nx = Some r"
  shows "\<exists>ts. r = concat ts
     \<and> list_all2 (\<lambda>l te. tagend op defs l = Some te) (rev (drop (difdepth sg nx) (origs sg))) ts"
  using layersend_loop_order [of op defs _ "[]" r] assms by (simp add: layersend_def)

section \<open>The order of the origins in the map of a pattern series\<close>

lemma in_order_more: "in_order app mp \<Longrightarrow> in_order (app @ ys) mp"
  by (auto simp: in_order_def intro: list_emb_prefix)

lemma setname_neworigs [simp]: "map setname (neworigs sn a b k) = [sn]"
  by (simp add: neworigs_def)










end
